theory Spec2Isabelle
  imports
    Main
    "HOL-Library.List_Lexorder"
    "HOL-Library.AList"
    "HOL-Library.Char_ord"
begin

section \<open>The options system of holoviews/core/options.py\<close>

text \<open>
  A shallow embedding of the classes \<^verbatim>\<open>Cycle\<close>, \<^verbatim>\<open>Options\<close>, \<^verbatim>\<open>OptionTree\<close> and
  \<^verbatim>\<open>Compositor\<close>. Python dictionaries are association lists with distinct keys, in
  the iteration order of the dictionary; exceptions are values of the type \<open>error\<close>,
  returned on the left of a sum.
\<close>

subsection \<open>Values, errors, dictionaries\<close>

text \<open>
  A keyword value is a plain value or a \<^verbatim>\<open>Cycle\<close> object; a constructed \<^verbatim>\<open>Cycle\<close> holds
  the value list its constructor resolved (\<^verbatim>\<open>self.values = self._get_values()\<close>).
\<close>

datatype val = IntV int | StrV string | CycleV (cycle_values: "val list")

fun is_Cycle :: "val \<Rightarrow> bool" where
  "is_Cycle (CycleV vs) = True"
| "is_Cycle v = False"

text \<open>
  \<^verbatim>\<open>OptionError(invalid_keyword, allowed_keywords, group_name, path)\<close> and the built-in
  exceptions the modelled code raises.
\<close>

datatype error =
    OptionError string "string list" "string option" "string list option"
  | ValueError
  | KeyError string
  | AttributeError
  | TypeError
  | ZeroDivisionError

type_synonym 'v dict = "(string \<times> 'v) list"

text \<open>\<^verbatim>\<open>dict(items)\<close>: a later item with the same key replaces the earlier value.\<close>

definition dict_items :: "(string \<times> 'v) list \<Rightarrow> 'v dict" where
  "dict_items items = fold (\<lambda>(k, v). AList.update k v) items []"

text \<open>\<^verbatim>\<open>dict(d, **kw)\<close>: the entries of \<open>kw\<close> are added to a copy of \<open>d\<close>, replacing equal keys.\<close>

definition dict_update :: "'v dict \<Rightarrow> 'v dict \<Rightarrow> 'v dict" where
  "dict_update d kw = fold (\<lambda>(k, v). AList.update k v) kw d"

text \<open>
  \<^verbatim>\<open>zip(*lists)\<close>: the tuples of the elements at equal positions, as many as the shortest
  list has.
\<close>

function zip_star :: "'a list list \<Rightarrow> 'a list list" where
  "zip_star xss =
     (if xss = [] \<or> [] \<in> set xss then [] else map hd xss # zip_star (map tl xss))"
  by pat_completeness auto
termination
proof (relation "measure (\<lambda>xss. length (hd xss))")
  show "wf (measure (\<lambda>xss::'a list list. length (hd xss)))" by simp
next
  fix xss :: "'a list list"
  assume "\<not> (xss = [] \<or> [] \<in> set xss)"
  then obtain xs rest where "xss = xs # rest" and "xs \<noteq> []"
    by (cases xss) auto
  then show "(map tl xss, xss) \<in> measure (\<lambda>xss. length (hd xss))"
    by simp
qed

declare zip_star.simps [simp del]

subsection \<open>Cycle\<close>

text \<open>
  \<^verbatim>\<open>Cycle._get_values\<close>, with the class attribute \<^verbatim>\<open>default_cycles\<close> as the catalog.
  An empty list and an empty string are false in Python.
\<close>

definition Cycle_get_values ::
  "(string \<rightharpoonup> val list) \<Rightarrow> string \<Rightarrow> val list \<Rightarrow> error + val list" where
  "Cycle_get_values default_cycles ckey cvalues =
     (if cvalues \<noteq> [] then Inr cvalues
      else if ckey \<noteq> [] then
        (case default_cycles ckey of None \<Rightarrow> Inl (KeyError ckey) | Some vs \<Rightarrow> Inr vs)
      else Inl ValueError)"

text \<open>\<^verbatim>\<open>Cycle.__init__\<close>: the object stores the resolved values.\<close>

definition Cycle_init :: "(string \<rightharpoonup> val list) \<Rightarrow> string \<Rightarrow> val list \<Rightarrow> error + val" where
  "Cycle_init default_cycles ckey cvalues =
     (case Cycle_get_values default_cycles ckey cvalues of
        Inl e \<Rightarrow> Inl e
      | Inr vs \<Rightarrow> Inr (CycleV vs))"

subsection \<open>Options\<close>

text \<open>The field \<open>options_list\<close> is the attribute \<^verbatim>\<open>_options\<close>.\<close>

record Options =
  key :: "string option"
  allowed_keywords :: "string list option"
  kwargs :: "val dict"
  options_list :: "val dict list"

text \<open>\<^verbatim>\<open>Options._expand_options\<close>.\<close>

definition expand_options :: "val dict \<Rightarrow> val dict list" where
  "expand_options kw =
     (let filter_static = filter (\<lambda>(k, v). \<not> is_Cycle v) kw;
          filter_cycles = filter (\<lambda>(k, v). is_Cycle v) kw
      in if filter_cycles = [] then [kw]
         else
           let filter_names = map fst filter_cycles;
               filter_values = map snd filter_cycles;
               cyclic_tuples = zip_star (map cycle_values filter_values)
           in map (\<lambda>tps. dict_update (dict_items (zip filter_names tps)) filter_static)
                cyclic_tuples)"

text \<open>
  The validation loop of \<^verbatim>\<open>Options.__init__\<close> over the sorted keyword names:
  \<^verbatim>\<open>if allowed_keywords and kwarg not in allowed_keywords: raise OptionError(...)\<close>.
  \<^verbatim>\<open>None\<close> and the empty list are both false.
\<close>

fun check_keywords :: "string list option \<Rightarrow> string list \<Rightarrow> error + unit" where
  "check_keywords allowed [] = Inr ()"
| "check_keywords allowed (kwarg # rest) =
     (case allowed of
        None \<Rightarrow> check_keywords allowed rest
      | Some al \<Rightarrow>
          if al \<noteq> [] \<and> kwarg \<notin> set al then Inl (OptionError kwarg al None None)
          else check_keywords allowed rest)"

text \<open>\<^verbatim>\<open>Options.__init__(key, allowed_keywords, **kwargs)\<close>.\<close>

definition Options_init ::
  "string option \<Rightarrow> string list option \<Rightarrow> val dict \<Rightarrow> error + Options" where
  "Options_init k allowed kw =
     (case check_keywords allowed (sort (map fst kw)) of
        Inl e \<Rightarrow> Inl e
      | Inr _ \<Rightarrow>
          Inr \<lparr> key = k,
                allowed_keywords =
                  (case allowed of
                     None \<Rightarrow> None
                   | Some al \<Rightarrow> if al \<noteq> [] then Some (sort al) else None),
                kwargs = kw,
                options_list = expand_options kw \<rparr>)"

text \<open>
  \<^verbatim>\<open>Options.__getitem__\<close>: \<^verbatim>\<open>dict(self._options[index % len(self._options)])\<close>. Python's
  \<^verbatim>\<open>%\<close> by zero raises; by a positive number it is the floored remainder, as \<open>mod\<close> on
  \<open>int\<close> is.
\<close>

definition Options_getitem :: "Options \<Rightarrow> int \<Rightarrow> error + val dict" where
  "Options_getitem opts index =
     (if options_list opts = [] then Inl ZeroDivisionError
      else Inr (options_list opts ! nat (index mod int (length (options_list opts)))))"

text \<open>
  The keywords that pass the validation loop: no allow-list, an empty one, or every
  keyword in it.
\<close>

definition keywords_valid :: "string list option \<Rightarrow> val dict \<Rightarrow> bool" where
  "keywords_valid allowed kw =
     (case allowed of None \<Rightarrow> True | Some al \<Rightarrow> al = [] \<or> fst ` set kw \<subseteq> set al)"

subsection \<open>OptionTree\<close>

text \<open>
  \<^verbatim>\<open>Options.__call__\<close>: a new Options object with the keywords of this one, updated by
  the given ones, under this object's key. An absent or \<^verbatim>\<open>None\<close> list of allowed
  keywords is replaced by this object's list.
\<close>

definition Options_call :: "Options \<Rightarrow> string list option \<Rightarrow> val dict \<Rightarrow> error + Options" where
  "Options_call opts allowed kw =
     Options_init (key opts)
       (case allowed of None \<Rightarrow> allowed_keywords opts | Some al \<Rightarrow> Some al)
       (dict_update (kwargs opts) kw)"

text \<open>
  Modelled from the spec: the base class \<^verbatim>\<open>AttrTree\<close> of \<^verbatim>\<open>holoviews/core/tree.py\<close>,
  which is not among the sources, gives a node its \<^verbatim>\<open>identifier\<close> (\<^verbatim>\<open>None\<close> at the root),
  its parent and an ordered set of named children: the list \<^verbatim>\<open>children\<close> of their
  identifiers and the child nodes under these names are the association list
  \<open>children\<close>. The dictionary \<^verbatim>\<open>groups\<close> and the flag \<^verbatim>\<open>_instantiated\<close> are the attributes
  that \<^verbatim>\<open>OptionTree.__init__\<close> sets. The parent of a node is not stored in it: a node is
  addressed by the path of identifiers that leads to it from the root, and the nodes
  above it are passed along where the code follows \<^verbatim>\<open>self.parent\<close>.
\<close>

datatype OptionTree =
  OptionTree (node_identifier: "string option") (groups: "Options dict") (instantiated: bool)
    (children: "(string \<times> OptionTree) list")

text \<open>What indexing a node returns: the Options object of a group, or a child node.\<close>

datatype item = GroupItem Options | NodeItem OptionTree

text \<open>What \<^verbatim>\<open>find\<close> returns: the item for the mode \<^verbatim>\<open>node\<close>, else its path.\<close>

datatype found = FoundItem item | FoundPath "string list"

text \<open>The values \<^verbatim>\<open>__setattr__\<close> accepts that are modelled: a dictionary, an Options object.\<close>

datatype setval = DictVal "Options dict" | OptionsVal Options

text \<open>
  \<^verbatim>\<open>OptionTree.__init__(None, identifier, parent, groups)\<close> with a dictionary of groups:
  a node without children, instantiated once the constructor is done.
\<close>

definition OptionTree_init :: "string option \<Rightarrow> Options dict \<Rightarrow> OptionTree" where
  "OptionTree_init ident gs = OptionTree ident gs True []"

text \<open>
  Modelled from the spec: \<^verbatim>\<open>AttrTree.__getitem__\<close>, which is not among the sources,
  returns the child of the given identifier and raises when there is none.
\<close>

definition AttrTree_getitem :: "OptionTree \<Rightarrow> string \<Rightarrow> error + OptionTree" where
  "AttrTree_getitem self i =
     (case map_of (children self) i of
        Some node \<Rightarrow> Inr node
      | None \<Rightarrow> Inl (KeyError i))"

text \<open>
  \<^verbatim>\<open>OptionTree.__getitem__\<close>: the name of a group gives the Options object of the group,
  before any child is looked up.
\<close>

definition OptionTree_getitem :: "OptionTree \<Rightarrow> string \<Rightarrow> error + item" where
  "OptionTree_getitem self i =
     (case map_of (groups self) i of
        Some opts \<Rightarrow> Inr (GroupItem opts)
      | None \<Rightarrow>
          (case AttrTree_getitem self i of
             Inl e \<Rightarrow> Inl e
           | Inr node \<Rightarrow> Inr (NodeItem node)))"

text \<open>
  \<^verbatim>\<open>self[identifier] if identifier in self.children else self\<close>, as both \<^verbatim>\<open>__setattr__\<close>
  and \<^verbatim>\<open>_inherited_options\<close> compute it.
\<close>

definition current_item :: "OptionTree \<Rightarrow> string \<Rightarrow> error + item" where
  "current_item self ident =
     (if ident \<in> set (map fst (children self)) then OptionTree_getitem self ident
      else Inr (NodeItem self))"

text \<open>
  \<^verbatim>\<open>OptionTree._inherited_options\<close>; \<open>path\<close> is \<^verbatim>\<open>self.path\<close>. The first part is the entry
  \<^verbatim>\<open>allowed_keywords\<close> of \<^verbatim>\<open>override_kwargs\<close>: \<^verbatim>\<open>self[identifier][group_name]\<close> indexes an
  Options object with a string when the identifier names a group, which raises, and a
  child node with the name of a group otherwise.
\<close>

definition override_allowed ::
  "OptionTree \<Rightarrow> string \<Rightarrow> string \<Rightarrow> Options \<Rightarrow> error + string list option" where
  "override_allowed self ident group_name options =
     (if \<not> instantiated self then Inr (allowed_keywords options)
      else if ident \<in> set (map fst (children self)) then
        (case OptionTree_getitem self ident of
           Inl e \<Rightarrow> Inl e
         | Inr (GroupItem opts) \<Rightarrow> Inl TypeError
         | Inr (NodeItem node) \<Rightarrow>
             (case OptionTree_getitem node group_name of
                Inl e \<Rightarrow> Inl e
              | Inr (GroupItem opts) \<Rightarrow> Inr (allowed_keywords opts)
              | Inr (NodeItem n) \<Rightarrow> Inl AttributeError))
      else Inr None)"

definition inherited_options ::
  "string list \<Rightarrow> OptionTree \<Rightarrow> string \<Rightarrow> string \<Rightarrow> Options \<Rightarrow> error + Options" where
  "inherited_options path self ident group_name options =
     (case override_allowed self ident group_name options of
        Inl e \<Rightarrow> Inl e
      | Inr allowed \<Rightarrow>
          if group_name \<notin> set (map fst (groups self)) then Inl (KeyError group_name)
          else
            (case current_item self ident of
               Inl e \<Rightarrow> Inl e
             | Inr (GroupItem opts) \<Rightarrow> Inl AttributeError
             | Inr (NodeItem current_node) \<Rightarrow>
                 (case map_of (groups current_node) group_name of
                    None \<Rightarrow> Inl (KeyError group_name)
                  | Some group_options \<Rightarrow>
                      (case Options_call group_options allowed (kwargs options) of
                         Inl (OptionError kw al g p) \<Rightarrow>
                           Inl (OptionError kw al (Some group_name) (Some path))
                       | Inl e \<Rightarrow> Inl e
                       | Inr opts \<Rightarrow> Inr opts))))"

text \<open>
  The loop of \<^verbatim>\<open>__setattr__\<close> over the groups of the current node, here over the items
  \<^verbatim>\<open>(group_name, current_node.groups[group_name])\<close>, building \<^verbatim>\<open>new_groups\<close>.
\<close>

fun new_groups_loop ::
  "string list \<Rightarrow> OptionTree \<Rightarrow> string \<Rightarrow> Options dict \<Rightarrow> Options dict \<Rightarrow> error + Options dict"
  where
  "new_groups_loop path self ident group_items [] = Inr []"
| "new_groups_loop path self ident group_items ((group_name, current) # rest) =
     (case (case map_of group_items group_name of
              Some options \<Rightarrow> inherited_options path self ident group_name options
            | None \<Rightarrow> Inr current) of
        Inl e \<Rightarrow> Inl e
      | Inr opts \<Rightarrow>
          (case new_groups_loop path self ident group_items rest of
             Inl e \<Rightarrow> Inl e
           | Inr new_groups \<Rightarrow> Inr ((group_name, opts) # new_groups)))"

text \<open>
  Modelled from the spec: \<^verbatim>\<open>AttrTree.__setattr__\<close>, which is not among the sources,
  creates or overwrites the child of the given identifier.
\<close>

definition set_child :: "OptionTree \<Rightarrow> string \<Rightarrow> OptionTree \<Rightarrow> OptionTree" where
  "set_child self ident node =
     OptionTree (node_identifier self) (groups self) (instantiated self)
       (AList.update ident node (children self))"

text \<open>
  \<^verbatim>\<open>OptionTree.__setattr__\<close> on a node, for a dictionary or an Options object; the result
  is the node after the assignment. \<open>path\<close> is \<^verbatim>\<open>self.path\<close>.
\<close>

definition OptionTree_setattr ::
  "(string \<Rightarrow> string) \<Rightarrow> string list \<Rightarrow> OptionTree \<Rightarrow> string \<Rightarrow> setval \<Rightarrow> error + OptionTree"
  where
  "OptionTree_setattr sanitize path self ident0 v =
     (let ident = sanitize ident0 in
      case (case v of
              DictVal d \<Rightarrow> Inr d
            | OptionsVal opts \<Rightarrow>
                (case key opts of None \<Rightarrow> Inl AttributeError | Some k \<Rightarrow> Inr [(k, opts)])) of
        Inl e \<Rightarrow> Inl e
      | Inr group_items \<Rightarrow>
          (case current_item self ident of
             Inl e \<Rightarrow> Inl e
           | Inr (GroupItem opts) \<Rightarrow> Inl AttributeError
           | Inr (NodeItem current_node) \<Rightarrow>
               (case new_groups_loop path self ident group_items (groups current_node) of
                  Inl e \<Rightarrow> Inl e
                | Inr new_groups \<Rightarrow>
                    if new_groups \<noteq> []
                    then Inr (set_child self ident (OptionTree_init (Some ident) new_groups))
                    else Inl ValueError)))"

text \<open>
  Addressing: the node a path of child identifiers leads to, the nodes passed on the
  way (the nearest first), and the tree after the node at a path has been changed into
  a given one.
\<close>

fun node_at :: "OptionTree \<Rightarrow> string list \<Rightarrow> OptionTree option" where
  "node_at t [] = Some t"
| "node_at t (c # cs) =
     (case map_of (children t) c of None \<Rightarrow> None | Some n \<Rightarrow> node_at n cs)"

fun ancestors_at :: "OptionTree list \<Rightarrow> OptionTree \<Rightarrow> string list \<Rightarrow> OptionTree list option" where
  "ancestors_at anc t [] = Some anc"
| "ancestors_at anc t (c # cs) =
     (case map_of (children t) c of None \<Rightarrow> None | Some n \<Rightarrow> ancestors_at (t # anc) n cs)"

fun replace_at :: "OptionTree \<Rightarrow> string list \<Rightarrow> OptionTree \<Rightarrow> OptionTree" where
  "replace_at t [] new = new"
| "replace_at t (c # cs) new =
     (case map_of (children t) c of
        None \<Rightarrow> t
      | Some n \<Rightarrow> set_child t c (replace_at n cs new))"

text \<open>The assignment \<^verbatim>\<open>node.identifier = v\<close> on the node at a path of a tree; the result is the tree.\<close>

definition setattr_at ::
  "(string \<Rightarrow> string) \<Rightarrow> OptionTree \<Rightarrow> string list \<Rightarrow> string \<Rightarrow> setval \<Rightarrow> error + OptionTree"
  where
  "setattr_at sanitize root path ident v =
     (case node_at root path of
        None \<Rightarrow> Inl (KeyError (concat path))
      | Some node \<Rightarrow>
          (case OptionTree_setattr sanitize path node ident v of
             Inl e \<Rightarrow> Inl e
           | Inr node' \<Rightarrow> Inr (replace_at root path node')))"

text \<open>
  \<^verbatim>\<open>OptionTree.options\<close> on a node, given the nodes above it (its parent first; none when
  \<^verbatim>\<open>self.parent is None\<close>). \<^verbatim>\<open>None.kwargs\<close> raises an \<^verbatim>\<open>AttributeError\<close>.
\<close>

fun OptionTree_options :: "OptionTree \<Rightarrow> OptionTree list \<Rightarrow> string \<Rightarrow> error + Options option" where
  "OptionTree_options self [] g =
     (case map_of (groups self) g of None \<Rightarrow> Inr None | Some own \<Rightarrow> Inr (Some own))"
| "OptionTree_options self (parent # anc) g =
     (case map_of (groups self) g of
        None \<Rightarrow> Inr None
      | Some own \<Rightarrow>
          (case OptionTree_options parent anc g of
             Inl e \<Rightarrow> Inl e
           | Inr None \<Rightarrow> Inl AttributeError
           | Inr (Some inherited) \<Rightarrow>
               (case Options_init None None (dict_update (kwargs inherited) (kwargs own)) of
                  Inl e \<Rightarrow> Inl e
                | Inr opts \<Rightarrow> Inr (Some opts))))"

text \<open>\<^verbatim>\<open>node.options(group)\<close> for the node at a path of a tree.\<close>

definition options_at :: "OptionTree \<Rightarrow> string list \<Rightarrow> string \<Rightarrow> error + Options option" where
  "options_at root path g =
     (case (node_at root path, ancestors_at [] root path) of
        (Some node, Some anc) \<Rightarrow> OptionTree_options node anc g
      | _ \<Rightarrow> Inl (KeyError (concat path)))"

text \<open>\<^verbatim>\<open>str.endswith\<close>.\<close>

definition endswith :: "string \<Rightarrow> string \<Rightarrow> bool" where
  "endswith s c = (length c \<le> length s \<and> drop (length s - length c) s = c)"

text \<open>
  The loop of \<^verbatim>\<open>OptionTree.find\<close> over the segments of the path, which is given as the
  list of its segments (a dotted string is split first). The state is \<^verbatim>\<open>item\<close> with its
  path from the root; \<^verbatim>\<open>sorted\<close> is stable.
\<close>

fun find_loop ::
  "(string \<Rightarrow> string) \<Rightarrow> string list \<times> item \<Rightarrow> string list \<Rightarrow> error + string list \<times> item" where
  "find_loop sanitize cur [] = Inr cur"
| "find_loop sanitize (p, it) (child # rest) =
     (case it of
        GroupItem opts \<Rightarrow> Inl AttributeError
      | NodeItem node \<Rightarrow>
          let escaped_child = sanitize child;
              matching_children =
                filter (\<lambda>c. endswith child c \<or> endswith escaped_child c) (map fst (children node));
              matching_children = sort_key (\<lambda>x. - int (length x)) matching_children
          in if matching_children \<noteq> [] then
               (case OptionTree_getitem node (hd matching_children) of
                  Inl e \<Rightarrow> Inl e
                | Inr it' \<Rightarrow> find_loop sanitize (p @ [hd matching_children], it') rest)
             else find_loop sanitize (p, it) rest)"

text \<open>\<^verbatim>\<open>OptionTree.find\<close> on a node whose path is \<open>self_path\<close>.\<close>

definition OptionTree_find ::
  "(string \<Rightarrow> string) \<Rightarrow> string list \<Rightarrow> OptionTree \<Rightarrow> string list \<Rightarrow> string \<Rightarrow> error + found" where
  "OptionTree_find sanitize self_path self path md =
     (case find_loop sanitize (self_path, NodeItem self) path of
        Inl e \<Rightarrow> Inl e
      | Inr (p, it) \<Rightarrow>
          if md = ''node'' then Inr (FoundItem it)
          else (case it of GroupItem opts \<Rightarrow> Inl AttributeError | NodeItem node \<Rightarrow> Inr (FoundPath p)))"

text \<open>
  The trees in which no child of a node is named like a group of the node: indexing
  such a node with the identifier of a child gives the child.
\<close>

fun no_group_child :: "OptionTree \<Rightarrow> bool" where
  "no_group_child (OptionTree i gs inst cs) =
     (\<forall>(c, n)\<in>set cs. c \<notin> set (map fst gs) \<and> no_group_child n)"

text \<open>
  The walk of \<^verbatim>\<open>find\<close> in the words of the specification, to compare with the loop above.
  At a node, the child for a segment is the existing child whose identifier is the
  longest among the identifiers that are a suffix of the segment or of the sanitized
  segment, the first such child in the order of the children; there is none when no
  identifier is such a suffix.
\<close>

definition longest_suffix_child ::
  "(string \<Rightarrow> string) \<Rightarrow> OptionTree \<Rightarrow> string \<Rightarrow> (string \<times> OptionTree) option" where
  "longest_suffix_child sanitize node seg =
     (let ms = filter (\<lambda>(c, n). endswith seg c \<or> endswith (sanitize seg) c) (children node)
      in List.find (\<lambda>(c, n). \<forall>(c', n')\<in>set ms. length c' \<le> length c) ms)"

text \<open>
  The walk starts at a node with its path, descends into that child at each segment and
  stays at the current node when the segment has none.
\<close>

fun spec_find :: "(string \<Rightarrow> string) \<Rightarrow> string list \<times> OptionTree \<Rightarrow> string list \<Rightarrow> string list \<times> OptionTree" where
  "spec_find sanitize cur [] = cur"
| "spec_find sanitize (p, node) (seg # segs) =
     (case longest_suffix_child sanitize node seg of
        None \<Rightarrow> spec_find sanitize (p, node) segs
      | Some (c, n) \<Rightarrow> spec_find sanitize (p @ [c], n) segs)"

subsection \<open>Elements and overlays\<close>

text \<open>
  Modelled from the spec: the classes of elements and overlays, which are not among the
  sources. A visualization object has a type name, a group and a label; an overlay is an
  ordered sequence of elements, the list \<^verbatim>\<open>overlay.values()\<close> whose length is
  \<^verbatim>\<open>len(overlay)\<close>, with an optional identity number, the attribute \<^verbatim>\<open>id\<close>.
\<close>

record element =
  el_type :: string
  el_group :: string
  el_label :: string

record overlay =
  ov_values :: "element list"
  ov_id :: "nat option"

datatype viewable = Element element | Overlay overlay



subsection \<open>Compositor\<close>

text \<open>
  A path of a pattern is the tuple of the stripped components of \<^verbatim>\<open>path.split('.')\<close>.
  \<^verbatim>\<open>str.split\<close> yields at least one component, so a path tuple is its first component
  with the list of the others: \<^verbatim>\<open>spec[0]\<close> is the first, \<^verbatim>\<open>len(spec) == 1\<close> says that the
  list is empty, \<^verbatim>\<open>spec[1]\<close> and \<^verbatim>\<open>spec[2]\<close> are its entries 0 and 1.
\<close>

type_synonym path_tuple = "string \<times> string list"

text \<open>
  The parameters \<^verbatim>\<open>mode\<close>, \<^verbatim>\<open>operation\<close>, \<^verbatim>\<open>group\<close> (here \<open>cgroup\<close>) and the attribute
  \<^verbatim>\<open>_pattern_spec\<close>. The field \<open>object_id\<close> is the identity of the object: two
  compositors built from the same parameters are different objects.
\<close>

record 'op Compositor =
  object_id :: nat
  mode :: string
  operation :: 'op
  pattern_spec :: "path_tuple list"
  cgroup :: string












text \<open>
  The class attributes \<^verbatim>\<open>definitions\<close> and \<^verbatim>\<open>operations\<close>, both empty at first, and
  \<^verbatim>\<open>Compositor.register\<close>: \<^verbatim>\<open>list.index\<close> is the first position of a value and
  \<^verbatim>\<open>list.pop(i)\<close> removes the entry at a position.
\<close>

record 'op registry =
  definitions :: "'op Compositor list"
  operations :: "'op list"

definition empty_registry :: "'op registry" where
  "empty_registry = \<lparr> definitions = [], operations = [] \<rparr>"

definition list_index :: "'a list \<Rightarrow> 'a \<Rightarrow> nat" where
  "list_index xs x = length (takeWhile (\<lambda>y. y \<noteq> x) xs)"

definition list_pop :: "nat \<Rightarrow> 'a list \<Rightarrow> 'a list" where
  "list_pop i xs = take i xs @ drop (Suc i) xs"

definition register :: "'op Compositor \<Rightarrow> 'op registry \<Rightarrow> 'op registry" where
  "register compositor r =
     (let defined_groups = map cgroup (definitions r);
          defs = (if cgroup compositor \<in> set defined_groups
                  then list_pop (list_index defined_groups (cgroup compositor)) (definitions r)
                  else definitions r)
      in \<lparr> definitions = defs @ [compositor],
           operations = (if operation compositor \<notin> set (operations r)
                         then operations r @ [operation compositor]
                         else operations r) \<rparr>)"

subsection \<open>Example objects\<close>

text \<open>An overlay of a curve and three images, and compositors of the mode \<^verbatim>\<open>data\<close>.\<close>

definition ex_curve :: element where
  "ex_curve = \<lparr> el_type = ''Curve'', el_group = ''Curve'', el_label = '''' \<rparr>"

definition ex_image :: "string \<Rightarrow> element" where
  "ex_image g = \<lparr> el_type = ''Image'', el_group = g, el_label = '''' \<rparr>"

definition ex_overlay :: overlay where
  "ex_overlay =
     \<lparr> ov_values = [ex_curve, ex_image ''R'', ex_image ''G'', ex_image ''B''], ov_id = Some 7 \<rparr>"

definition ex_rgb :: "string Compositor" where
  "ex_rgb = \<lparr> object_id = 1, mode = ''data'', operation = ''toRGB'',
              pattern_spec = [(''Image'', [''R'']), (''Image'', [''G'']), (''Image'', [''B''])],
              cgroup = ''RGB'' \<rparr>"

definition ex_any :: "string Compositor" where
  "ex_any = \<lparr> object_id = 2, mode = ''data'', operation = ''first'',
              pattern_spec = [(''Image'', [])], cgroup = ''Any'' \<rparr>"

definition ex_any_curve :: "string Compositor" where
  "ex_any_curve = \<lparr> object_id = 4, mode = ''data'', operation = ''firstCurve'',
              pattern_spec = [(''Curve'', [])], cgroup = ''AnyCurve'' \<rparr>"

text \<open>
  An operation call whose result tells what it was called with: the type is the name
  of the operation, the label lists the groups of the elements of an overlay, or names
  the group of a single element.
\<close>

definition ex_run :: "string \<Rightarrow> viewable \<Rightarrow> unit \<Rightarrow> nat option \<Rightarrow> element" where
  "ex_run op v r k =
     (case v of
        Overlay ov \<Rightarrow>
          \<lparr> el_type = op, el_group = ''Overlay'',
            el_label = concat (map (\<lambda>el. el_group el @ ''.'') (ov_values ov)) \<rparr>
      | Element el \<Rightarrow>
          \<lparr> el_type = op, el_group = ''Element'', el_label = ''single '' @ el_group el \<rparr>)"

text \<open>
  A tree with the one group \<^verbatim>\<open>plot\<close>, before and after the assignments
  \<^verbatim>\<open>root.A = {'plot': Options(x=1)}\<close> and \<^verbatim>\<open>root.A.B = {'plot': Options(y=2)}\<close>;
  \<open>ex_options kw\<close> is \<^verbatim>\<open>Options(**kw)\<close> for keywords without Cycles.
\<close>

definition ex_options :: "val dict \<Rightarrow> Options" where
  "ex_options kw = \<lparr> key = None, allowed_keywords = None, kwargs = kw, options_list = [kw] \<rparr>"

definition ex_root :: OptionTree where
  "ex_root = OptionTree_init None [(''plot'', ex_options [])]"

definition ex_node_A :: OptionTree where
  "ex_node_A = OptionTree (Some ''A'') [(''plot'', ex_options [(''x'', IntV 1)])] True []"

definition ex_node_B :: OptionTree where
  "ex_node_B =
     OptionTree (Some ''B'') [(''plot'', ex_options [(''x'', IntV 1), (''y'', IntV 2)])] True []"

definition ex_node_AB :: OptionTree where
  "ex_node_AB =
     OptionTree (Some ''A'') [(''plot'', ex_options [(''x'', IntV 1)])] True [(''B'', ex_node_B)]"

definition ex_tree_A :: OptionTree where
  "ex_tree_A = OptionTree None [(''plot'', ex_options [])] True [(''A'', ex_node_A)]"

definition ex_tree_AB :: OptionTree where
  "ex_tree_AB = OptionTree None [(''plot'', ex_options [])] True [(''A'', ex_node_AB)]"

text \<open>
  The tree after \<^verbatim>\<open>root.A = {'plot': Options(x=1)}\<close> and a second assignment
  \<^verbatim>\<open>root.A = {'plot': Options(y=2)}\<close> to the same child.
\<close>

definition ex_node_A2 :: OptionTree where
  "ex_node_A2 =
     OptionTree (Some ''A'') [(''plot'', ex_options [(''x'', IntV 1), (''y'', IntV 2)])] True []"

definition ex_tree_A2 :: OptionTree where
  "ex_tree_A2 = OptionTree None [(''plot'', ex_options [])] True [(''A'', ex_node_A2)]"

text \<open>
  A tree whose root has the one child \<^verbatim>\<open>Image\<close>, and a tree whose root has a group and a
  child of the same name \<^verbatim>\<open>A\<close>.
\<close>

definition ex_image_node :: OptionTree where
  "ex_image_node = OptionTree (Some ''Image'') [(''plot'', ex_options [])] True []"

definition ex_image_tree :: OptionTree where
  "ex_image_tree =
     OptionTree None [(''plot'', ex_options [])] True [(''Image'', ex_image_node)]"

definition ex_group_child_tree :: OptionTree where
  "ex_group_child_tree =
     OptionTree None [(''A'', ex_options [])] True
       [(''A'', OptionTree (Some ''A'')
                  [(''A'', ex_options [(''x'', IntV 1)])] True [])]"

section \<open>Properties of Cycle\<close>

text \<open>
  C9. Resolving the values of a Cycle fails exactly when no explicit values were given
  and either the lookup key is empty (\<^verbatim>\<open>ValueError\<close>) or the key is absent from the
  catalog of named cycles (\<^verbatim>\<open>KeyError\<close>); when explicit values are given, they are
  returned and the resolution does not fail.
\<close>

theorem Cycle_get_values_fails_iff:
  "(isl (Cycle_get_values cat k vs) \<longleftrightarrow> vs = [] \<and> (k = [] \<or> cat k = None))
   \<and> (vs = [] \<and> k = [] \<longrightarrow> Cycle_get_values cat k vs = Inl ValueError)
   \<and> (vs = [] \<and> k \<noteq> [] \<and> cat k = None \<longrightarrow> Cycle_get_values cat k vs = Inl (KeyError k))
   \<and> (vs \<noteq> [] \<longrightarrow> Cycle_get_values cat k vs = Inr vs)"
  by (auto simp: Cycle_get_values_def split: option.splits)

theorem Cycle_get_values_fails_iff_witness:
  "isl (Cycle_get_values Map.empty ''grayscale'' [])
   \<and> Cycle_get_values Map.empty [] [] = Inl ValueError
   \<and> Cycle_get_values Map.empty ''grayscale'' [] = Inl (KeyError ''grayscale'')
   \<and> Cycle_get_values Map.empty ''grayscale'' [IntV 1] = Inr [IntV 1]"
  using Cycle_get_values_fails_iff [of Map.empty "''grayscale''" "[]"]
    Cycle_get_values_fails_iff [of Map.empty "[]" "[]"]
    Cycle_get_values_fails_iff [of Map.empty "''grayscale''" "[IntV 1]"]
  by simp

section \<open>Properties of Options\<close>

subsection \<open>Auxiliary facts on zip and dictionaries\<close>

lemma zip_star_length:
  "xss \<noteq> [] \<Longrightarrow> length (zip_star xss) = Min (length ` set xss)"
proof (induction xss rule: zip_star.induct)
  case (1 xss)
  show ?case
  proof (cases "[] \<in> set xss")
    case True
    then have "0 \<in> length ` set xss" by force
    then have "Min (length ` set xss) = 0"
      by (metis List.finite_set Min_le finite_imageI le_zero_eq)
    with True show ?thesis by (simp add: zip_star.simps)
  next
    case False
    with "1.prems" have ih: "length (zip_star (map tl xss)) = Min (length ` set (map tl xss))"
      using "1.IH" by simp
    have "length ` set (map tl xss) = (\<lambda>n. n - 1) ` (length ` set xss)"
      by (auto simp: image_iff)
    moreover have "Min ((\<lambda>n. n - 1) ` (length ` set xss)) = Min (length ` set xss) - 1"
      using "1.prems" by (intro mono_Min_commute [symmetric]) (auto simp: mono_def)
    moreover have "Min (length ` set xss) > 0"
      using False "1.prems" by (subst Min_gr_iff) auto
    ultimately show ?thesis
      using False "1.prems" ih by (subst zip_star.simps) simp
  qed
qed

lemma zip_star_nth:
  "i < length (zip_star xss) \<Longrightarrow> zip_star xss ! i = map (\<lambda>xs. xs ! i) xss"
proof (induction xss arbitrary: i rule: zip_star.induct)
  case (1 xss)
  from "1.prems" have ne: "\<not> (xss = [] \<or> [] \<in> set xss)"
    by (subst (asm) zip_star.simps) (auto split: if_splits)
  then have eq: "zip_star xss = map hd xss # zip_star (map tl xss)"
    by (subst zip_star.simps) simp
  show ?case
  proof (cases i)
    case 0
    have "map hd xss = map (\<lambda>xs. xs ! 0) xss"
    proof (rule map_cong [OF refl])
      fix xs assume "xs \<in> set xss"
      with ne have "xs \<noteq> []" by auto
      then show "hd xs = xs ! 0" by (simp add: hd_conv_nth)
    qed
    with 0 eq show ?thesis by simp
  next
    case (Suc j)
    with "1.prems" eq have "j < length (zip_star (map tl xss))" by simp
    from "1.IH" [OF ne this] have "zip_star (map tl xss) ! j = map (\<lambda>xs. xs ! j) (map tl xss)" .
    also have "\<dots> = map (\<lambda>xs. xs ! Suc j) xss"
      unfolding map_map
    proof (rule map_cong [OF refl])
      fix xs assume "xs \<in> set xss"
      with ne have "xs \<noteq> []" by auto
      then show "((\<lambda>xs. xs ! j) \<circ> tl) xs = xs ! Suc j" by (cases xs) simp_all
    qed
    finally show ?thesis using Suc eq by simp
  qed
qed

lemma map_of_dict_update: "map_of (dict_update d kw) = map_of d ++ map_of (rev kw)"
  unfolding dict_update_def
proof (induction kw arbitrary: d)
  case Nil then show ?case by simp
next
  case (Cons p kw)
  obtain k v where p: "p = (k, v)" by (cases p)
  show ?case using Cons.IH [of "AList.update k v d"]
    by (simp add: p AList.update_conv' map_add_upd_left fun_eq_iff map_add_def split: option.splits)
qed

lemma map_of_rev_distinct: "distinct (map fst xs) \<Longrightarrow> map_of (rev xs) = map_of xs"
  by (rule map_of_inject_set [THEN iffD2]) (simp_all add: rev_map [symmetric])

lemma map_of_dict_items: "distinct (map fst xs) \<Longrightarrow> map_of (dict_items xs) = map_of xs"
  using map_of_dict_update [of "[]" xs] by (simp add: dict_items_def dict_update_def map_of_rev_distinct)

subsection \<open>The expansion of Cycle objects\<close>

lemma map_of_filter_val:
  "distinct (map fst kw) \<Longrightarrow>
   map_of (filter (\<lambda>(k, v). P v) kw) k =
     (case map_of kw k of None \<Rightarrow> None | Some v \<Rightarrow> if P v then Some v else None)"
proof (induction kw)
  case Nil then show ?case by simp
next
  case (Cons p kw)
  obtain k' v' where p: "p = (k', v')" by (cases p)
  from Cons.prems p have notin: "k' \<notin> fst ` set kw" by simp
  then have "map_of kw k' = None" by (simp add: map_of_eq_None_iff)
  with Cons show ?case by (auto simp: p split: option.splits)
qed

lemma expand_options_static:
  "\<forall>(k, v)\<in>set kw. \<not> is_Cycle v \<Longrightarrow> expand_options kw = [kw]"
  by (auto simp: expand_options_def Let_def filter_empty_conv)

lemma cycle_lists_set:
  "set (map cycle_values (map snd (filter (\<lambda>(k, v). is_Cycle v) kw)))
     = {vs. \<exists>k. (k, CycleV vs) \<in> set kw}"
proof -
  have "\<And>v. is_Cycle v \<longleftrightarrow> (\<exists>vs. v = CycleV vs)" by (case_tac v) auto
  then show ?thesis by (force simp: image_iff)
qed

lemma expand_options_cyclic_def:
  assumes "\<exists>(k, v)\<in>set kw. is_Cycle v"
  shows "expand_options kw =
     map (\<lambda>tps. dict_update (dict_items (zip (map fst (filter (\<lambda>(k, v). is_Cycle v) kw)) tps))
                  (filter (\<lambda>(k, v). \<not> is_Cycle v) kw))
       (zip_star (map cycle_values (map snd (filter (\<lambda>(k, v). is_Cycle v) kw))))"
proof -
  from assms have "filter (\<lambda>(k, v). is_Cycle v) kw \<noteq> []"
    by (auto simp: filter_empty_conv)
  then show ?thesis by (simp add: expand_options_def Let_def)
qed

lemma expand_options_length:
  assumes "\<exists>(k, v)\<in>set kw. is_Cycle v"
  shows "length (expand_options kw) = Min (length ` {vs. \<exists>k. (k, CycleV vs) \<in> set kw})"
proof -
  let ?ls = "map cycle_values (map snd (filter (\<lambda>(k, v). is_Cycle v) kw))"
  from assms have "?ls \<noteq> []" by (auto simp: filter_empty_conv)
  then have "length (zip_star ?ls) = Min (length ` set ?ls)" by (rule zip_star_length)
  then show ?thesis
    unfolding cycle_lists_set by (simp add: expand_options_cyclic_def [OF assms])
qed

lemma expand_options_nth:
  assumes d: "distinct (map fst kw)" and c: "\<exists>(k, v)\<in>set kw. is_Cycle v"
    and i: "i < length (expand_options kw)"
  shows "map_of (expand_options kw ! i) k =
           (case map_of kw k of
              None \<Rightarrow> None
            | Some v \<Rightarrow> if is_Cycle v then Some (cycle_values v ! i) else Some v)"
proof -
  let ?cyc = "filter (\<lambda>(k, v). is_Cycle v) kw"
  let ?sta = "filter (\<lambda>(k, v). \<not> is_Cycle v) kw"
  let ?ls = "map cycle_values (map snd ?cyc)"
  from i have i': "i < length (zip_star ?ls)"
    by (simp add: expand_options_cyclic_def [OF c])
  have dc: "distinct (map fst ?cyc)" and ds: "distinct (map fst ?sta)"
    using d by (simp_all add: distinct_map_filter)
  have z: "zip (map fst ?cyc) (map (\<lambda>xs. xs ! i) ?ls) = map (\<lambda>(k, v). (k, cycle_values v ! i)) ?cyc"
    by (induction kw) auto
  have dz: "distinct (map fst (zip (map fst ?cyc) (map (\<lambda>xs. xs ! i) ?ls)))"
    using dc by (simp add: z case_prod_unfold comp_def)
  define zs where "zs = zip (map fst ?cyc) (map (\<lambda>xs. xs ! i) ?ls)"
  have zs: "zs = map (\<lambda>(k, v). (k, cycle_values v ! i)) ?cyc"
    unfolding zs_def by (rule z)
  have dzs: "distinct (map fst zs)"
    using dz unfolding zs_def .
  have "expand_options kw ! i = dict_update (dict_items zs) ?sta"
    unfolding zs_def using i' by (simp add: expand_options_cyclic_def [OF c] zip_star_nth)
  then have "map_of (expand_options kw ! i) = map_of zs ++ map_of ?sta"
    by (simp only: map_of_dict_update map_of_dict_items [OF dzs] map_of_rev_distinct [OF ds])
  then have "map_of (expand_options kw ! i) k =
          (map_of (map (\<lambda>(k, v). (k, cycle_values v ! i)) ?cyc) ++ map_of ?sta) k"
    by (simp only: zs)
  also have "\<dots> = (case map_of kw k of
              None \<Rightarrow> None
            | Some v \<Rightarrow> if is_Cycle v then Some (cycle_values v ! i) else Some v)"
    by (simp add: map_of_map map_add_def map_of_filter_val [OF d] split: option.splits)
  finally show ?thesis .
qed

subsection \<open>Keyword validation\<close>

lemma check_keywords_None: "check_keywords None ks = Inr ()"
  by (induction ks) auto

lemma check_keywords_Nil: "check_keywords (Some []) ks = Inr ()"
  by (induction ks) auto

lemma check_keywords_find:
  "al \<noteq> [] \<Longrightarrow> check_keywords (Some al) ks =
     (case List.find (\<lambda>k. k \<notin> set al) ks of
        None \<Rightarrow> Inr () | Some k \<Rightarrow> Inl (OptionError k al None None))"
  by (induction ks) auto

lemma check_keywords_valid:
  "keywords_valid allowed kw \<Longrightarrow> check_keywords allowed (sort (map fst kw)) = Inr ()"
proof (cases allowed)
  case None then show ?thesis by (simp add: check_keywords_None)
next
  case (Some al)
  assume v: "keywords_valid allowed kw"
  show ?thesis
  proof (cases "al = []")
    case True with Some show ?thesis by (simp add: check_keywords_Nil)
  next
    case False
    with v Some have "fst ` set kw \<subseteq> set al" by (simp add: keywords_valid_def)
    then have "List.find (\<lambda>k. k \<notin> set al) (sort (map fst kw)) = None"
      by (auto simp: find_None_iff)
    with False Some show ?thesis by (simp add: check_keywords_find)
  qed
qed

lemma Options_init_valid:
  "keywords_valid allowed kw \<Longrightarrow>
   \<exists>opts. Options_init gk allowed kw = Inr opts \<and> kwargs opts = kw \<and> key opts = gk
      \<and> options_list opts = expand_options kw"
  by (simp add: Options_init_def check_keywords_valid)

lemma Options_init_Inr:
  "Options_init gk allowed kw = Inr opts \<Longrightarrow>
   kwargs opts = kw \<and> key opts = gk \<and> options_list opts = expand_options kw"
  by (auto simp: Options_init_def split: sum.splits)


lemma expand_options_one_cycle_length:
  assumes "filter (\<lambda>(k, v). is_Cycle v) kw = [(c, CycleV vs)]"
  shows "length (expand_options kw) = length vs"
proof -
  have "length (zip_star [vs]) = Min (length ` set [vs])"
    by (rule zip_star_length) simp
  then show ?thesis using assms by (simp add: expand_options_def Let_def)
qed

lemma getitem_index_bound:
  "xs \<noteq> [] \<Longrightarrow> nat (i mod int (length xs)) < length xs"
  by (simp add: nat_less_iff)

text \<open>
  C3. The expanded sequence of concrete mappings: with no Cycle among the values it is
  the one original mapping. Otherwise its length is that of the shortest Cycle (not the
  product of the lengths), and its entry at position \<open>i\<close> gives every Cycle-valued keyword
  the value at position \<open>i\<close> of its Cycle and every static keyword its own value: the
  Cycles are zipped position by position and combined with the static keywords.
\<close>

theorem expand_options_parallel:
  assumes "distinct (map fst kw)"
  shows "((\<forall>(k, v)\<in>set kw. \<not> is_Cycle v) \<longrightarrow> expand_options kw = [kw])
   \<and> ((\<exists>(k, v)\<in>set kw. is_Cycle v) \<longrightarrow>
        length (expand_options kw) = Min (length ` {vs. \<exists>k. (k, CycleV vs) \<in> set kw})
      \<and> (\<forall>i<length (expand_options kw). \<forall>k.
           map_of (expand_options kw ! i) k =
             (case map_of kw k of
                None \<Rightarrow> None
              | Some v \<Rightarrow> if is_Cycle v then Some (cycle_values v ! i) else Some v)))"
  using assms expand_options_static expand_options_length expand_options_nth by blast

theorem expand_options_parallel_witness:
  "distinct (map fst [(''c'', CycleV [IntV 1, IntV 2]), (''m'', CycleV [IntV 3, IntV 4, IntV 6]), (''lw'', IntV 5)])
   \<and> expand_options [(''lw'', IntV 5)] = [[(''lw'', IntV 5)]]
   \<and> length (expand_options [(''c'', CycleV [IntV 1, IntV 2]), (''m'', CycleV [IntV 3, IntV 4, IntV 6]), (''lw'', IntV 5)]) = 2
   \<and> map_of (expand_options [(''c'', CycleV [IntV 1, IntV 2]), (''m'', CycleV [IntV 3, IntV 4, IntV 6]), (''lw'', IntV 5)] ! 1) ''m'' = Some (IntV 4)
   \<and> map_of (expand_options [(''c'', CycleV [IntV 1, IntV 2]), (''m'', CycleV [IntV 3, IntV 4, IntV 6]), (''lw'', IntV 5)] ! 1) ''c'' = Some (IntV 2)
   \<and> map_of (expand_options [(''c'', CycleV [IntV 1, IntV 2]), (''m'', CycleV [IntV 3, IntV 4, IntV 6]), (''lw'', IntV 5)] ! 1) ''lw'' = Some (IntV 5)"
proof -
  let ?kw = "[(''c'', CycleV [IntV 1, IntV 2]), (''m'', CycleV [IntV 3, IntV 4, IntV 6]), (''lw'', IntV 5)]"
  have d: "distinct (map fst ?kw)" by simp
  have d1: "distinct (map fst [(''lw'', IntV 5)])" by simp
  have c: "\<exists>(k, v)\<in>set ?kw. is_Cycle v" by simp
  have s: "{vs. \<exists>k. (k, CycleV vs) \<in> set ?kw} = {[IntV 1, IntV 2], [IntV 3, IntV 4, IntV 6]}"
    by auto
  have len: "length (expand_options ?kw) = 2"
    using expand_options_parallel [OF d] c unfolding s by simp
  have "Suc 0 < length (expand_options ?kw)" using len by simp
  with expand_options_parallel [OF d] c
  have nth: "\<And>k. map_of (expand_options ?kw ! Suc 0) k =
             (case map_of ?kw k of
                None \<Rightarrow> None
              | Some v \<Rightarrow> if is_Cycle v then Some (cycle_values v ! Suc 0) else Some v)"
    by blast
  have st: "expand_options [(''lw'', IntV 5)] = [[(''lw'', IntV 5)]]"
    using expand_options_parallel [OF d1] by simp
  have m: "map_of (expand_options ?kw ! 1) ''m'' = Some (IntV 4)"
    and cc: "map_of (expand_options ?kw ! 1) ''c'' = Some (IntV 2)"
    and lw: "map_of (expand_options ?kw ! 1) ''lw'' = Some (IntV 5)"
    by (simp_all add: nth)
  from d st len m cc lw show ?thesis by blast
qed




text \<open>
  C10. When two Cycle-valued keywords have value lists of unequal lengths, the
  constructor succeeds (the keywords being such that they pass its validation, which
  does not look at the values), the expanded sequence is as long as the shortest
  Cycle, and the values each Cycle-valued keyword takes along the sequence are the
  first values of its Cycle: the trailing values of the longer Cycles are dropped.
\<close>

theorem Options_init_unequal_cycles:
  assumes d: "distinct (map fst kw)" and v: "keywords_valid allowed kw"
    and c1: "(k1, CycleV vs1) \<in> set kw" and c2: "(k2, CycleV vs2) \<in> set kw"
    and ne: "length vs1 \<noteq> length vs2"
  shows "\<exists>opts. Options_init gk allowed kw = Inr opts
      \<and> length (options_list opts) = Min (length ` {vs. \<exists>k. (k, CycleV vs) \<in> set kw})
      \<and> length (options_list opts) < max (length vs1) (length vs2)
      \<and> (\<forall>k vs. (k, CycleV vs) \<in> set kw \<longrightarrow>
            map (\<lambda>m. map_of m k) (options_list opts)
              = map Some (take (length (options_list opts)) vs))"
proof -
  from Options_init_valid [OF v] obtain opts where
    i: "Options_init gk allowed kw = Inr opts" and ol: "options_list opts = expand_options kw"
    by blast
  let ?S = "{vs. \<exists>k. (k, CycleV vs) \<in> set kw}"
  have fin: "finite (length ` ?S)"
  proof -
    have "?S \<subseteq> cycle_values ` snd ` set kw" by force
    then show ?thesis by (meson finite_imageI finite_set finite_subset)
  qed
  from c1 have cyc: "\<exists>(k, v)\<in>set kw. is_Cycle v" by force
  have len: "length (expand_options kw) = Min (length ` ?S)"
    by (rule expand_options_length [OF cyc])
  have le: "\<And>k vs. (k, CycleV vs) \<in> set kw \<Longrightarrow> length (expand_options kw) \<le> length vs"
    unfolding len using fin by (intro Min_le) auto
  from le [OF c1] le [OF c2] ne
  have lt: "length (expand_options kw) < max (length vs1) (length vs2)" by linarith
  have vals: "map (\<lambda>m. map_of m k) (expand_options kw)
              = map Some (take (length (expand_options kw)) vs)"
    if m: "(k, CycleV vs) \<in> set kw" for k vs
  proof (rule nth_equalityI)
    show "length (map (\<lambda>m. map_of m k) (expand_options kw))
            = length (map Some (take (length (expand_options kw)) vs))"
      using le [OF m] by simp
  next
    fix i assume "i < length (map (\<lambda>m. map_of m k) (expand_options kw))"
    then have i: "i < length (expand_options kw)" by simp
    from d m have "map_of kw k = Some (CycleV vs)" by (rule map_of_is_SomeI)
    with expand_options_nth [OF d cyc i, of k]
    have "map_of (expand_options kw ! i) k = Some (vs ! i)" by simp
    with i le [OF m] show "map (\<lambda>m. map_of m k) (expand_options kw) ! i
            = map Some (take (length (expand_options kw)) vs) ! i"
      by simp
  qed
  from i len lt vals show ?thesis unfolding ol [symmetric] by blast
qed

theorem Options_init_unequal_cycles_witness:
  "\<exists>opts. Options_init None None [(''c'', CycleV [IntV 1, IntV 2]), (''m'', CycleV [IntV 3, IntV 4, IntV 6])] = Inr opts
      \<and> length (options_list opts) = 2
      \<and> map (\<lambda>m. map_of m ''m'') (options_list opts) = [Some (IntV 3), Some (IntV 4)]
      \<and> map (\<lambda>m. map_of m ''c'') (options_list opts) = [Some (IntV 1), Some (IntV 2)]"
proof -
  let ?kw = "[(''c'', CycleV [IntV 1, IntV 2]), (''m'', CycleV [IntV 3, IntV 4, IntV 6])]"
  have s: "{vs. \<exists>k. (k, CycleV vs) \<in> set ?kw} = {[IntV 1, IntV 2], [IntV 3, IntV 4, IntV 6]}"
    by auto
  have "distinct (map fst ?kw)" "keywords_valid None ?kw"
    "(''c'', CycleV [IntV 1, IntV 2]) \<in> set ?kw" "(''m'', CycleV [IntV 3, IntV 4, IntV 6]) \<in> set ?kw"
    "length [IntV 1, IntV 2] \<noteq> length [IntV 3, IntV 4, IntV 6]"
    by (simp_all add: keywords_valid_def)
  from Options_init_unequal_cycles [OF this, of None] obtain opts where
    i: "Options_init None None ?kw = Inr opts"
    and l: "length (options_list opts) = 2"
    and a: "\<forall>k vs. (k, CycleV vs) \<in> set ?kw \<longrightarrow>
            map (\<lambda>m. map_of m k) (options_list opts)
              = map Some (take (length (options_list opts)) vs)"
    unfolding s by auto
  from a have "map (\<lambda>m. map_of m ''m'') (options_list opts)
              = map Some (take (length (options_list opts)) [IntV 3, IntV 4, IntV 6])"
    by simp
  moreover from a have "map (\<lambda>m. map_of m ''c'') (options_list opts)
              = map Some (take (length (options_list opts)) [IntV 1, IntV 2])"
    by simp
  ultimately show ?thesis using i l by (simp add: numeral_2_eq_2)
qed

text \<open>
  C4, as amended. Indexing a constructed Options object whose expanded sequence is not
  empty by an integer \<open>i\<close> returns the concrete mapping at position \<open>i mod n\<close>, a position
  of the sequence, for \<open>n\<close> the length of the sequence; with an empty sequence every
  index raises a \<^verbatim>\<open>ZeroDivisionError\<close>. A non-cyclic Options object returns its one
  mapping at every index. For an Options object with one Cycle of \<open>n\<close> values the sequence
  has length \<open>n\<close> and indexing at \<open>i\<close> and at \<open>i + n\<close> gives the same, for \<open>n > 0\<close> a mapping
  with the value of the Cycle at \<open>i mod n\<close>.
\<close>

theorem Options_getitem_cyclic:
  assumes init: "Options_init gk allowed kw = Inr opts"
  shows "(options_list opts \<noteq> [] \<longrightarrow>
            nat (i mod int (length (options_list opts))) < length (options_list opts)
          \<and> Options_getitem opts i =
              Inr (options_list opts ! nat (i mod int (length (options_list opts)))))
     \<and> (options_list opts = [] \<longrightarrow> Options_getitem opts i = Inl ZeroDivisionError)
     \<and> ((\<forall>(k, v)\<in>set kw. \<not> is_Cycle v) \<longrightarrow> Options_getitem opts i = Inr kw)
     \<and> (filter (\<lambda>(k, v). is_Cycle v) kw = [(c, CycleV vs)] \<longrightarrow>
            length (options_list opts) = length vs
          \<and> Options_getitem opts (i + int (length vs)) = Options_getitem opts i
          \<and> (distinct (map fst kw) \<and> vs \<noteq> [] \<longrightarrow>
               (\<exists>m. Options_getitem opts i = Inr m
                  \<and> map_of m c = Some (vs ! nat (i mod int (length vs))))))"
proof (intro conjI impI)
  assume "options_list opts \<noteq> []"
  then show "nat (i mod int (length (options_list opts))) < length (options_list opts)"
    by (rule getitem_index_bound)
next
  assume "options_list opts \<noteq> []"
  then show "Options_getitem opts i =
              Inr (options_list opts ! nat (i mod int (length (options_list opts))))"
    by (simp add: Options_getitem_def)
next
  assume "options_list opts = []"
  then show "Options_getitem opts i = Inl ZeroDivisionError"
    by (simp add: Options_getitem_def)
next
  assume "\<forall>(k, v)\<in>set kw. \<not> is_Cycle v"
  then have "expand_options kw = [kw]" by (rule expand_options_static)
  with Options_init_Inr [OF init] show "Options_getitem opts i = Inr kw"
    by (simp add: Options_getitem_def)
next
  assume a: "filter (\<lambda>(k, v). is_Cycle v) kw = [(c, CycleV vs)]"
  from Options_init_Inr [OF init] have ol: "options_list opts = expand_options kw" by simp
  from a have len: "length (expand_options kw) = length vs"
    by (rule expand_options_one_cycle_length)
  show "length (options_list opts) = length vs" using ol len by simp
  show "Options_getitem opts (i + int (length vs)) = Options_getitem opts i"
    by (simp add: Options_getitem_def ol len)
next
  assume a: "filter (\<lambda>(k, v). is_Cycle v) kw = [(c, CycleV vs)]"
    and b: "distinct (map fst kw) \<and> vs \<noteq> []"
  from Options_init_Inr [OF init] have ol: "options_list opts = expand_options kw" by simp
  from a have len: "length (expand_options kw) = length vs"
    by (rule expand_options_one_cycle_length)
  from b len have ne: "expand_options kw \<noteq> []" by auto
  have "(c, CycleV vs) \<in> set (filter (\<lambda>(k, v). is_Cycle v) kw)" using a by simp
  then have mem: "(c, CycleV vs) \<in> set kw" by simp
  then have cyc: "\<exists>(k, v)\<in>set kw. is_Cycle v" by force
  from b mem have m: "map_of kw c = Some (CycleV vs)" by (intro map_of_is_SomeI) simp_all
  let ?j = "nat (i mod int (length vs))"
  have j: "?j < length (expand_options kw)"
    using getitem_index_bound [OF ne, of i] by (simp add: len)
  from b have d: "distinct (map fst kw)" by simp
  from expand_options_nth [OF d cyc j, of c] m
  have "map_of (expand_options kw ! ?j) c = Some (vs ! ?j)" by simp
  then show "\<exists>m. Options_getitem opts i = Inr m
                 \<and> map_of m c = Some (vs ! nat (i mod int (length vs)))"
    using ne by (simp add: Options_getitem_def ol len)
qed

theorem Options_getitem_cyclic_witness:
  "\<exists>opts opts'.
     Options_init None None [(''color'', CycleV [StrV ''r'', StrV ''g'', StrV ''b'']), (''lw'', IntV 2)] = Inr opts
   \<and> Options_init None None [(''lw'', IntV 2)] = Inr opts'
   \<and> Options_getitem opts' (- 7) = Inr [(''lw'', IntV 2)]
   \<and> length (options_list opts) = 3
   \<and> Options_getitem opts (4 + 3) = Options_getitem opts 4
   \<and> (\<exists>m. Options_getitem opts (- 1) = Inr m \<and> map_of m ''color'' = Some (StrV ''b''))"
proof -
  let ?kw = "[(''color'', CycleV [StrV ''r'', StrV ''g'', StrV ''b'']), (''lw'', IntV 2)]"
  let ?vs = "[StrV ''r'', StrV ''g'', StrV ''b'']"
  obtain opts where o: "Options_init None None ?kw = Inr opts"
    by (simp add: Options_init_def)
  obtain opts' where o': "Options_init None None [(''lw'', IntV 2)] = Inr opts'"
    by (simp add: Options_init_def)
  have h: "filter (\<lambda>(k, v). is_Cycle v) ?kw = [(''color'', CycleV ?vs)]"
    and h': "distinct (map fst ?kw) \<and> ?vs \<noteq> []"
    by simp_all
  have "Options_getitem opts' (- 7) = Inr [(''lw'', IntV 2)]"
    using Options_getitem_cyclic [OF o', of "- 7"] by simp
  moreover have "length (options_list opts) = 3"
    using Options_getitem_cyclic [OF o, of 4 "''color''" ?vs] h by simp
  moreover have "Options_getitem opts (4 + 3) = Options_getitem opts 4"
    using Options_getitem_cyclic [OF o, of 4 "''color''" ?vs] h by simp
  moreover have "\<exists>m. Options_getitem opts (- 1) = Inr m \<and> map_of m ''color'' = Some (StrV ''b'')"
    using Options_getitem_cyclic [OF o, of "- 1" "''color''" ?vs] h h' by simp
  ultimately show ?thesis using o o' by blast
qed

text \<open>
  C4 as stated fails for an Options object with an empty Cycle, which a catalog entry
  without values gives: the expanded sequence is empty, and indexing returns no
  mapping at any index.
\<close>

theorem Options_getitem_empty_cycle_counterexample:
  "Cycle_init [''none'' \<mapsto> []] ''none'' [] = Inr (CycleV [])
   \<and> Options_init None None [(''color'', CycleV [])]
       = Inr \<lparr> key = None, allowed_keywords = None, kwargs = [(''color'', CycleV [])],
               options_list = [] \<rparr>
   \<and> Options_getitem \<lparr> key = None, allowed_keywords = None, kwargs = [(''color'', CycleV [])],
                        options_list = [] \<rparr> 0 = Inl ZeroDivisionError
   \<and> Options_getitem \<lparr> key = None, allowed_keywords = None, kwargs = [(''color'', CycleV [])],
                        options_list = [] \<rparr> 1 = Inl ZeroDivisionError"
  by (simp add: Cycle_init_def Cycle_get_values_def Options_init_def expand_options_def
      zip_star.simps Options_getitem_def)

section \<open>Properties of Compositor\<close>

lemmas ex_defs = ex_curve_def ex_image_def ex_overlay_def ex_rgb_def ex_any_def ex_any_curve_def
  ex_run_def



subsection \<open>The strongest match\<close>



lemma hd_sort_key_least:
  assumes "xs \<noteq> []"
  shows "hd (sort_key f xs) \<in> set xs \<and> (\<forall>x\<in>set xs. f (hd (sort_key f xs)) \<le> f x)"
proof -
  let ?ys = "sort_key f xs"
  from assms have ne: "?ys \<noteq> []" by (metis length_sort length_0_conv)
  then obtain y ys where ys: "?ys = y # ys" by (cases ?ys) auto
  have "sorted (map f ?ys)" by simp
  with ys have "\<forall>x\<in>set ys. f y \<le> f x" by simp
  moreover have "set ?ys = set xs" by simp
  ultimately show ?thesis using ys by (metis list.sel(1) list.set_intros(1) order_refl set_ConsD)
qed












subsection \<open>The registry\<close>

lemma pop_index_filter:
  "distinct (map g xs) \<Longrightarrow> a \<in> g ` set xs \<Longrightarrow>
   list_pop (list_index (map g xs) a) xs = filter (\<lambda>d. g d \<noteq> a) xs"
proof (induction xs)
  case Nil then show ?case by simp
next
  case (Cons d xs)
  show ?case
  proof (cases "g d = a")
    case True
    with Cons.prems have "\<forall>x\<in>set xs. g x \<noteq> a" by (auto simp: image_iff)
    then have "filter (\<lambda>d. g d \<noteq> a) xs = xs" by (simp add: filter_id_conv)
    with True show ?thesis by (simp add: list_pop_def list_index_def)
  next
    case False
    with Cons.prems have "a \<in> g ` set xs" "distinct (map g xs)" by auto
    with Cons.IH have "list_pop (list_index (map g xs) a) xs = filter (\<lambda>d. g d \<noteq> a) xs" by simp
    with False show ?thesis by (simp add: list_pop_def list_index_def)
  qed
qed

lemma register_definitions:
  assumes "distinct (map cgroup (definitions r))"
  shows "definitions (register c r) = filter (\<lambda>d. cgroup d \<noteq> cgroup c) (definitions r) @ [c]"
proof (cases "cgroup c \<in> cgroup ` set (definitions r)")
  case True
  with assms show ?thesis by (simp add: register_def pop_index_filter)
next
  case False
  then have "filter (\<lambda>d. cgroup d \<noteq> cgroup c) (definitions r) = definitions r"
    by (auto simp: filter_id_conv image_iff)
  with False show ?thesis by (simp add: register_def)
qed

lemma register_distinct:
  assumes "distinct (map cgroup (definitions r))"
  shows "distinct (map cgroup (definitions (register c r)))"
  using assms by (auto simp: register_definitions distinct_map_filter)

lemma register_operations:
  "operations (register c r) =
     (if operation c \<in> set (operations r) then operations r else operations r @ [operation c])"
  by (simp add: register_def)

lemma fold_register_snoc: "fold register (cs @ [c]) r = register c (fold register cs r)"
  by simp

lemma fold_register_distinct:
  "distinct (map cgroup (definitions (fold register cs empty_registry)))"
proof (induction cs rule: rev_induct)
  case Nil show ?case by (simp add: empty_registry_def)
next
  case (snoc c cs) then show ?case by (simp add: register_distinct)
qed

lemma fold_register_operations:
  "operations (fold register cs empty_registry) = rev (remdups (rev (map operation cs)))"
proof (induction cs rule: rev_induct)
  case Nil show ?case by (simp add: empty_registry_def)
next
  case (snoc c cs) then show ?case by (simp add: register_operations)
qed

text \<open>
  C7. After any sequence of \<^verbatim>\<open>register\<close> calls on the empty registry, the groups of the
  registered compositors are pairwise distinct; registering one more compositor removes
  the compositor of the same group and appends the new one, the others keeping their
  order; and the list of operations holds every operation of the sequence once, in the
  order of the first occurrences.
\<close>

theorem register_one_per_group:
  "distinct (map cgroup (definitions (fold register cs empty_registry)))
   \<and> definitions (fold register (cs @ [c]) empty_registry)
       = filter (\<lambda>d. cgroup d \<noteq> cgroup c) (definitions (fold register cs empty_registry)) @ [c]
   \<and> operations (fold register cs empty_registry) = rev (remdups (rev (map operation cs)))
   \<and> distinct (operations (fold register cs empty_registry))
   \<and> set (operations (fold register cs empty_registry)) = operation ` set cs"
  using fold_register_distinct [of cs]
  by (simp add: fold_register_operations register_definitions)

theorem register_one_per_group_witness:
  "definitions (fold register [ex_rgb, ex_any, ex_rgb\<lparr>object_id := 3\<rparr>] empty_registry)
     = [ex_any, ex_rgb\<lparr>object_id := 3\<rparr>]
   \<and> operations (fold register [ex_rgb, ex_any, ex_rgb\<lparr>object_id := 3\<rparr>] empty_registry)
     = [''toRGB'', ''first'']"
proof -
  have "definitions (fold register [ex_rgb, ex_any] empty_registry) = [ex_rgb, ex_any]"
    by (simp add: register_def empty_registry_def ex_defs)
  with register_one_per_group [of "[ex_rgb, ex_any]" "ex_rgb\<lparr>object_id := 3\<rparr>"]
  have "definitions (fold register ([ex_rgb, ex_any] @ [ex_rgb\<lparr>object_id := 3\<rparr>]) empty_registry)
     = [ex_any, ex_rgb\<lparr>object_id := 3\<rparr>]"
    by (simp add: ex_defs)
  moreover from register_one_per_group [of "[ex_rgb, ex_any, ex_rgb\<lparr>object_id := 3\<rparr>]"]
  have "operations (fold register [ex_rgb, ex_any, ex_rgb\<lparr>object_id := 3\<rparr>] empty_registry)
     = [''toRGB'', ''first'']"
    by (simp add: ex_defs)
  ultimately show ?thesis by simp
qed


subsection \<open>Collapsing an overlay\<close>









section \<open>Properties of OptionTree\<close>

subsection \<open>Assignment and resolution\<close>

lemma Options_call_Inr:
  "Options_call cur allowed kw = Inr new \<Longrightarrow>
   kwargs new = dict_update (kwargs cur) kw \<and> key new = key cur"
  by (auto simp: Options_call_def dest: Options_init_Inr)

lemma inherited_options_Inr:
  assumes "inherited_options path self ident g options = Inr new"
    and "current_item self ident = Inr (NodeItem cur)"
  shows "\<exists>cur_opts. map_of (groups cur) g = Some cur_opts
           \<and> kwargs new = dict_update (kwargs cur_opts) (kwargs options)
           \<and> key new = key cur_opts"
  using assms
  by (auto simp: inherited_options_def split: sum.splits if_splits option.splits error.splits
      dest: Options_call_Inr)

lemma new_groups_loop_Inr:
  assumes "new_groups_loop path self ident gi gs = Inr ng"
  shows "map fst ng = map fst gs
     \<and> (\<forall>i<length gs.
           (case map_of gi (fst (gs ! i)) of
              None \<Rightarrow> snd (ng ! i) = snd (gs ! i)
            | Some options \<Rightarrow>
                inherited_options path self ident (fst (gs ! i)) options = Inr (snd (ng ! i))))"
  using assms
proof (induction gs arbitrary: ng)
  case Nil then show ?case by simp
next
  case (Cons p gs)
  obtain g cur where p: "p = (g, cur)" by (cases p)
  from Cons.prems p obtain opts ng' where
    o: "(case map_of gi g of
              Some options \<Rightarrow> inherited_options path self ident g options
            | None \<Rightarrow> Inr cur) = Inr opts"
    and l: "new_groups_loop path self ident gi gs = Inr ng'"
    and ng: "ng = (g, opts) # ng'"
    by (auto split: sum.splits)
  from Cons.IH [OF l] have ih1: "map fst ng' = map fst gs"
    and ih2: "\<forall>i<length gs.
           (case map_of gi (fst (gs ! i)) of
              None \<Rightarrow> snd (ng' ! i) = snd (gs ! i)
            | Some options \<Rightarrow>
                inherited_options path self ident (fst (gs ! i)) options = Inr (snd (ng' ! i)))"
    by simp_all
  show ?case
  proof (intro conjI allI impI)
    show "map fst ng = map fst (p # gs)" using ih1 ng p by simp
  next
    fix i assume "i < length (p # gs)"
    then show "case map_of gi (fst ((p # gs) ! i)) of
              None \<Rightarrow> snd (ng ! i) = snd ((p # gs) ! i)
            | Some options \<Rightarrow>
                inherited_options path self ident (fst ((p # gs) ! i)) options = Inr (snd (ng ! i))"
      using o ih2 ng p by (cases i) (auto split: option.splits)
  qed
qed

lemma OptionTree_setattr_Inr:
  assumes "OptionTree_setattr sanitize path self ident0 (DictVal gi) = Inr self'"
  shows "\<exists>cur ng. current_item self (sanitize ident0) = Inr (NodeItem cur)
           \<and> new_groups_loop path self (sanitize ident0) gi (groups cur) = Inr ng
           \<and> self' = set_child self (sanitize ident0) (OptionTree_init (Some (sanitize ident0)) ng)"
  using assms
  by (auto simp: OptionTree_setattr_def Let_def split: sum.splits item.splits if_splits)

lemma map_of_dict_update_distinct:
  "distinct (map fst kw) \<Longrightarrow> map_of (dict_update d kw) = map_of d ++ map_of kw"
  by (simp add: map_of_dict_update map_of_rev_distinct)

lemma set_child_sel:
  "groups (set_child self i n) = groups self"
  "children (set_child self i n) = AList.update i n (children self)"
  by (simp_all add: set_child_def)

lemma current_item_NodeItem:
  assumes "current_item self i = Inr (NodeItem cur)"
  shows "case map_of (children self) i of
           Some existing \<Rightarrow> cur = existing \<and> i \<notin> set (map fst (groups self))
         | None \<Rightarrow> cur = self"
proof (cases "map_of (children self) i")
  case None
  then have "i \<notin> set (map fst (children self))" by (simp add: map_of_eq_None_iff)
  with assms None show ?thesis by (simp add: current_item_def)
next
  case (Some existing)
  then have "i \<in> set (map fst (children self))"
    by (metis map_of_eq_None_iff option.distinct(1) set_map)
  with assms Some show ?thesis
    by (auto simp: current_item_def OptionTree_getitem_def AttrTree_getitem_def
        map_of_eq_None_iff split: option.splits)
qed

lemma setattr_merges:
  assumes s: "OptionTree_setattr sanitize path self ident0 (DictVal gi) = Inr self'"
  shows "\<exists>cur child.
       (case map_of (children self) (sanitize ident0) of
          Some existing \<Rightarrow> cur = existing \<and> sanitize ident0 \<notin> set (map fst (groups self))
        | None \<Rightarrow> cur = self)
     \<and> groups self' = groups self
     \<and> children self' = AList.update (sanitize ident0) child (children self)
     \<and> map_of (children self') (sanitize ident0) = Some child
     \<and> children child = []
     \<and> map fst (groups child) = map fst (groups cur)
     \<and> (distinct (map fst (groups cur)) \<longrightarrow>
          (\<forall>g cur_opts. map_of (groups cur) g = Some cur_opts \<longrightarrow>
             (\<exists>new. map_of (groups child) g = Some new
                \<and> (case map_of gi g of
                     None \<Rightarrow> new = cur_opts
                   | Some options \<Rightarrow>
                       kwargs new = dict_update (kwargs cur_opts) (kwargs options)
                     \<and> (distinct (map fst (kwargs options)) \<longrightarrow>
                          map_of (kwargs new) = map_of (kwargs cur_opts) ++ map_of (kwargs options))))))"
proof -
  let ?i = "sanitize ident0"
  from OptionTree_setattr_Inr [OF s] obtain cur ng where
    c: "current_item self ?i = Inr (NodeItem cur)"
    and l: "new_groups_loop path self ?i gi (groups cur) = Inr ng"
    and s': "self' = set_child self ?i (OptionTree_init (Some ?i) ng)"
    by blast
  let ?child = "OptionTree_init (Some ?i) ng"
  from new_groups_loop_Inr [OF l] have fst: "map fst ng = map fst (groups cur)"
    and nth: "\<forall>i<length (groups cur).
           (case map_of gi (fst (groups cur ! i)) of
              None \<Rightarrow> snd (ng ! i) = snd (groups cur ! i)
            | Some options \<Rightarrow>
                inherited_options path self ?i (fst (groups cur ! i)) options = Inr (snd (ng ! i)))"
    by simp_all
  have gc: "groups ?child = ng" and cc: "children ?child = []"
    by (simp_all add: OptionTree_init_def)
  have main: "\<exists>new. map_of ng g = Some new
                \<and> (case map_of gi g of
                     None \<Rightarrow> new = cur_opts
                   | Some options \<Rightarrow>
                       kwargs new = dict_update (kwargs cur_opts) (kwargs options)
                     \<and> (distinct (map fst (kwargs options)) \<longrightarrow>
                          map_of (kwargs new) = map_of (kwargs cur_opts) ++ map_of (kwargs options)))"
    if d: "distinct (map fst (groups cur))" and m: "map_of (groups cur) g = Some cur_opts"
    for g cur_opts
  proof -
    from m have "(g, cur_opts) \<in> set (groups cur)" by (rule map_of_SomeD)
    then obtain i where i: "i < length (groups cur)" and gi: "groups cur ! i = (g, cur_opts)"
      by (auto simp: in_set_conv_nth)
    from fst have len: "length ng = length (groups cur)" by (metis length_map)
    from fst i gi len have "fst (ng ! i) = g" by (metis fst_conv nth_map)
    moreover from d fst have "distinct (map fst ng)" by simp
    ultimately have mo: "map_of ng g = Some (snd (ng ! i))"
      using i len by (metis map_of_is_SomeI nth_mem prod.collapse)
    show ?thesis
    proof (cases "map_of gi g")
      case None
      with nth i gi have "snd (ng ! i) = cur_opts" by fastforce
      with mo None show ?thesis by simp
    next
      case (Some options)
      with nth i gi have "inherited_options path self ?i g options = Inr (snd (ng ! i))"
        by fastforce
      from inherited_options_Inr [OF this c] m
      have k: "kwargs (snd (ng ! i)) = dict_update (kwargs cur_opts) (kwargs options)" by auto
      with mo Some show ?thesis by (simp add: map_of_dict_update_distinct)
    qed
  qed
  have upd: "map_of (children self') ?i = Some ?child"
    by (simp add: s' set_child_sel AList.update_conv')
  show ?thesis
    apply (rule exI [of _ cur], rule exI [of _ ?child])
    using current_item_NodeItem [OF c] fst main upd by (simp add: s' set_child_sel gc cc)
qed


lemma options_inherit:
  assumes "map_of (groups self) g = Some own"
    and "OptionTree_options parent anc g = Inr (Some inh)"
  shows "\<exists>res. OptionTree_options self (parent # anc) g = Inr (Some res)
        \<and> kwargs res = dict_update (kwargs inh) (kwargs own)
        \<and> (distinct (map fst (kwargs own)) \<longrightarrow>
              map_of (kwargs res) = map_of (kwargs inh) ++ map_of (kwargs own))"
proof -
  have "keywords_valid None (dict_update (kwargs inh) (kwargs own))"
    by (simp add: keywords_valid_def)
  from Options_init_valid [OF this, of None] obtain res where
    "Options_init None None (dict_update (kwargs inh) (kwargs own)) = Inr res"
    and "kwargs res = dict_update (kwargs inh) (kwargs own)"
    by blast
  with assms show ?thesis by (simp add: map_of_dict_update_distinct)
qed

text \<open>
  C2. An assignment of a dictionary of groups to a child of a node, when it succeeds,
  leaves the groups of the node as they are and sets the child of the (sanitized)
  identifier to a new node without children. Its groups are those of the current node:
  the existing child of that identifier when there is one, and the node itself when
  there is none. A group the dictionary does not name keeps the current Options object,
  and for a group it names the keywords are those of the current Options object updated
  by the new ones: the current keywords are kept unless a new keyword replaces them, so
  a repeated assignment to the same child accumulates.
  Resolving a group at the root gives the Options object of the root; at a node below,
  the keywords resolved at the parent updated by the node's own, so that descendants
  override ancestors. After \<^verbatim>\<open>root.A = {'plot': Options(x=1)}\<close> and
  \<^verbatim>\<open>root.A.B = {'plot': Options(y=2)}\<close> the group \<^verbatim>\<open>plot\<close> resolves to \<^verbatim>\<open>{'x':1,'y':2}\<close> at
  \<^verbatim>\<open>A.B\<close> and to \<^verbatim>\<open>{'x':1}\<close> at \<^verbatim>\<open>A\<close>; after \<^verbatim>\<open>root.A = {'plot': Options(x=1)}\<close> and
  \<^verbatim>\<open>root.A = {'plot': Options(y=2)}\<close> it resolves to \<^verbatim>\<open>{'x':1,'y':2}\<close> at \<^verbatim>\<open>A\<close>.
\<close>

theorem OptionTree_assign_merges_options_inherit:
  "(OptionTree_setattr sanitize path self ident0 (DictVal gi) = Inr self' \<longrightarrow>
      (\<exists>cur child.
          (case map_of (children self) (sanitize ident0) of
             Some existing \<Rightarrow> cur = existing \<and> sanitize ident0 \<notin> set (map fst (groups self))
           | None \<Rightarrow> cur = self)
        \<and> groups self' = groups self
        \<and> children self' = AList.update (sanitize ident0) child (children self)
        \<and> map_of (children self') (sanitize ident0) = Some child
        \<and> children child = []
        \<and> map fst (groups child) = map fst (groups cur)
        \<and> (distinct (map fst (groups cur)) \<longrightarrow>
             (\<forall>g cur_opts. map_of (groups cur) g = Some cur_opts \<longrightarrow>
                (\<exists>new. map_of (groups child) g = Some new
                   \<and> (case map_of gi g of
                        None \<Rightarrow> new = cur_opts
                      | Some options \<Rightarrow>
                          kwargs new = dict_update (kwargs cur_opts) (kwargs options)
                        \<and> (distinct (map fst (kwargs options)) \<longrightarrow>
                             map_of (kwargs new)
                               = map_of (kwargs cur_opts) ++ map_of (kwargs options))))))))
   \<and> OptionTree_options self [] g = Inr (map_of (groups self) g)
   \<and> (map_of (groups self) g = Some own \<and> OptionTree_options parent anc g = Inr (Some inh) \<longrightarrow>
        (\<exists>res. OptionTree_options self (parent # anc) g = Inr (Some res)
           \<and> kwargs res = dict_update (kwargs inh) (kwargs own)
           \<and> (distinct (map fst (kwargs own)) \<longrightarrow>
                 map_of (kwargs res) = map_of (kwargs inh) ++ map_of (kwargs own))))
   \<and> Options_init None None [(''x'', IntV 1)] = Inr (ex_options [(''x'', IntV 1)])
   \<and> Options_init None None [(''y'', IntV 2)] = Inr (ex_options [(''y'', IntV 2)])
   \<and> setattr_at id ex_root [] ''A'' (DictVal [(''plot'', ex_options [(''x'', IntV 1)])])
        = Inr ex_tree_A
   \<and> setattr_at id ex_tree_A [''A''] ''B'' (DictVal [(''plot'', ex_options [(''y'', IntV 2)])])
        = Inr ex_tree_AB
   \<and> options_at ex_tree_AB [''A'', ''B''] ''plot''
        = Inr (Some (ex_options [(''x'', IntV 1), (''y'', IntV 2)]))
   \<and> options_at ex_tree_AB [''A''] ''plot'' = Inr (Some (ex_options [(''x'', IntV 1)]))
   \<and> setattr_at id ex_tree_A [] ''A'' (DictVal [(''plot'', ex_options [(''y'', IntV 2)])])
        = Inr ex_tree_A2
   \<and> options_at ex_tree_A2 [''A''] ''plot''
        = Inr (Some (ex_options [(''x'', IntV 1), (''y'', IntV 2)]))"
proof (intro conjI impI)
  assume "OptionTree_setattr sanitize path self ident0 (DictVal gi) = Inr self'"
  then show "\<exists>cur child.
          (case map_of (children self) (sanitize ident0) of
             Some existing \<Rightarrow> cur = existing \<and> sanitize ident0 \<notin> set (map fst (groups self))
           | None \<Rightarrow> cur = self)
        \<and> groups self' = groups self
        \<and> children self' = AList.update (sanitize ident0) child (children self)
        \<and> map_of (children self') (sanitize ident0) = Some child
        \<and> children child = []
        \<and> map fst (groups child) = map fst (groups cur)
        \<and> (distinct (map fst (groups cur)) \<longrightarrow>
             (\<forall>g cur_opts. map_of (groups cur) g = Some cur_opts \<longrightarrow>
                (\<exists>new. map_of (groups child) g = Some new
                   \<and> (case map_of gi g of
                        None \<Rightarrow> new = cur_opts
                      | Some options \<Rightarrow>
                          kwargs new = dict_update (kwargs cur_opts) (kwargs options)
                        \<and> (distinct (map fst (kwargs options)) \<longrightarrow>
                             map_of (kwargs new)
                               = map_of (kwargs cur_opts) ++ map_of (kwargs options))))))"
    by (rule setattr_merges)
next
  show "OptionTree_options self [] g = Inr (map_of (groups self) g)"
    by (simp split: option.splits)
next
  assume "map_of (groups self) g = Some own \<and> OptionTree_options parent anc g = Inr (Some inh)"
  then show "\<exists>res. OptionTree_options self (parent # anc) g = Inr (Some res)
           \<and> kwargs res = dict_update (kwargs inh) (kwargs own)
           \<and> (distinct (map fst (kwargs own)) \<longrightarrow>
                 map_of (kwargs res) = map_of (kwargs inh) ++ map_of (kwargs own))"
    using options_inherit by blast
qed code_simp+

theorem OptionTree_assign_merges_options_inherit_witness:
  "OptionTree_setattr id [''A''] ex_node_A ''B''
       (DictVal [(''plot'', ex_options [(''y'', IntV 2)])]) = Inr ex_node_AB
   \<and> (\<exists>new. map_of (groups ex_node_B) ''plot'' = Some new
          \<and> kwargs new = [(''x'', IntV 1), (''y'', IntV 2)]
          \<and> map_of (kwargs new) ''x'' = Some (IntV 1) \<and> map_of (kwargs new) ''y'' = Some (IntV 2))
   \<and> OptionTree_setattr id [] ex_tree_A ''A''
       (DictVal [(''plot'', ex_options [(''y'', IntV 2)])]) = Inr ex_tree_A2
   \<and> map_of (children ex_tree_A) ''A'' = Some ex_node_A
   \<and> map_of (groups ex_node_A) ''plot'' = Some (ex_options [(''x'', IntV 1)])
   \<and> (\<exists>child new. map_of (children ex_tree_A2) ''A'' = Some child
          \<and> map_of (groups child) ''plot'' = Some new
          \<and> kwargs new = [(''x'', IntV 1), (''y'', IntV 2)])
   \<and> OptionTree_options ex_node_AB [ex_tree_AB] ''plot'' = Inr (Some (ex_options [(''x'', IntV 1)]))
   \<and> (\<exists>res. OptionTree_options ex_node_B [ex_node_AB, ex_tree_AB] ''plot'' = Inr (Some res)
          \<and> kwargs res = [(''x'', IntV 1), (''y'', IntV 2)])"
proof -
  let ?gi = "[(''plot'', ex_options [(''y'', IntV 2)])]"
  have s: "OptionTree_setattr id [''A''] ex_node_A ''B'' (DictVal ?gi) = Inr ex_node_AB"
    by code_simp
  have ch: "children ex_node_AB = [(''B'', ex_node_B)]" "children ex_node_A = []"
    by (simp_all add: ex_node_AB_def ex_node_A_def)
  have gA: "map_of (groups ex_node_A) ''plot'' = Some (ex_options [(''x'', IntV 1)])"
    "distinct (map fst (groups ex_node_A))"
    by (simp_all add: ex_node_A_def)
  from OptionTree_assign_merges_options_inherit
    [of id "[''A'']" ex_node_A "''B''" ?gi ex_node_AB] s
  obtain cur child where
    c: "case map_of (children ex_node_A) (id ''B'') of
             Some existing \<Rightarrow> cur = existing \<and> id ''B'' \<notin> set (map fst (groups ex_node_A))
           | None \<Rightarrow> cur = ex_node_A"
    and k: "children ex_node_AB = AList.update (id ''B'') child (children ex_node_A)"
    and m: "distinct (map fst (groups cur)) \<longrightarrow>
             (\<forall>g cur_opts. map_of (groups cur) g = Some cur_opts \<longrightarrow>
                (\<exists>new. map_of (groups child) g = Some new
                   \<and> (case map_of ?gi g of
                        None \<Rightarrow> new = cur_opts
                      | Some options \<Rightarrow>
                          kwargs new = dict_update (kwargs cur_opts) (kwargs options)
                        \<and> (distinct (map fst (kwargs options)) \<longrightarrow>
                             map_of (kwargs new)
                               = map_of (kwargs cur_opts) ++ map_of (kwargs options)))))"
    by blast
  from c ch have "cur = ex_node_A" by simp
  moreover from k ch have "child = ex_node_B" by simp
  ultimately obtain new where
    n: "map_of (groups ex_node_B) ''plot'' = Some new"
    and n': "case map_of ?gi ''plot'' of
                        None \<Rightarrow> new = ex_options [(''x'', IntV 1)]
                      | Some options \<Rightarrow>
                          kwargs new = dict_update (kwargs (ex_options [(''x'', IntV 1)])) (kwargs options)
                        \<and> (distinct (map fst (kwargs options)) \<longrightarrow>
                             map_of (kwargs new)
                               = map_of (kwargs (ex_options [(''x'', IntV 1)])) ++ map_of (kwargs options))"
    using m gA by blast
  from n' have w1: "kwargs new = [(''x'', IntV 1), (''y'', IntV 2)]"
    by (simp_all add: ex_options_def dict_update_def)
  from w1 have w2: "map_of (kwargs new) ''x'' = Some (IntV 1) \<and> map_of (kwargs new) ''y'' = Some (IntV 2)"
    by simp
  have s2: "OptionTree_setattr id [] ex_tree_A ''A'' (DictVal ?gi) = Inr ex_tree_A2"
    by code_simp
  have e: "map_of (children ex_tree_A) ''A'' = Some ex_node_A"
    by (simp add: ex_tree_A_def)
  from OptionTree_assign_merges_options_inherit
    [of id "[]" ex_tree_A "''A''" ?gi ex_tree_A2] s2
  obtain cur2 child2 where
    c2: "case map_of (children ex_tree_A) (id ''A'') of
             Some existing \<Rightarrow> cur2 = existing \<and> id ''A'' \<notin> set (map fst (groups ex_tree_A))
           | None \<Rightarrow> cur2 = ex_tree_A"
    and k2: "map_of (children ex_tree_A2) (id ''A'') = Some child2"
    and m2: "distinct (map fst (groups cur2)) \<longrightarrow>
             (\<forall>g cur_opts. map_of (groups cur2) g = Some cur_opts \<longrightarrow>
                (\<exists>new. map_of (groups child2) g = Some new
                   \<and> (case map_of ?gi g of
                        None \<Rightarrow> new = cur_opts
                      | Some options \<Rightarrow>
                          kwargs new = dict_update (kwargs cur_opts) (kwargs options)
                        \<and> (distinct (map fst (kwargs options)) \<longrightarrow>
                             map_of (kwargs new)
                               = map_of (kwargs cur_opts) ++ map_of (kwargs options)))))"
    by blast
  from c2 e have "cur2 = ex_node_A" by simp
  with m2 gA obtain new2 where
    n2: "map_of (groups child2) ''plot'' = Some new2"
    and n2': "case map_of ?gi ''plot'' of
                        None \<Rightarrow> new2 = ex_options [(''x'', IntV 1)]
                      | Some options \<Rightarrow>
                          kwargs new2 = dict_update (kwargs (ex_options [(''x'', IntV 1)])) (kwargs options)
                        \<and> (distinct (map fst (kwargs options)) \<longrightarrow>
                             map_of (kwargs new2)
                               = map_of (kwargs (ex_options [(''x'', IntV 1)])) ++ map_of (kwargs options))"
    by blast
  from n2' have w3: "kwargs new2 = [(''x'', IntV 1), (''y'', IntV 2)]"
    by (simp_all add: ex_options_def dict_update_def)
  from k2 n2 w3 have x: "\<exists>child new. map_of (children ex_tree_A2) ''A'' = Some child
          \<and> map_of (groups child) ''plot'' = Some new
          \<and> kwargs new = [(''x'', IntV 1), (''y'', IntV 2)]"
    by auto
  have r1': "OptionTree_options ex_node_AB [ex_tree_AB] ''plot'' = Inr (Some (ex_options [(''x'', IntV 1)]))"
    by code_simp
  from OptionTree_assign_merges_options_inherit
    [of id "[]" ex_node_B "''B''" "[]" ex_node_B "''plot''" new
      ex_node_AB "[ex_tree_AB]" "ex_options [(''x'', IntV 1)]"] r1' n
  obtain res2 where r2: "OptionTree_options ex_node_B [ex_node_AB, ex_tree_AB] ''plot'' = Inr (Some res2)"
    and r2k: "kwargs res2 = dict_update (kwargs (ex_options [(''x'', IntV 1)])) (kwargs new)"
    by blast
  from r2k w1 have "kwargs res2 = [(''x'', IntV 1), (''y'', IntV 2)]"
    by (simp add: ex_options_def dict_update_def)
  with s n w1 w2 s2 e gA(1) x r1' r2 show ?thesis by blast
qed

subsection \<open>Finding the closest node\<close>

lemma hd_insort_key:
  "hd (insort_key f x ys) = (if ys = [] \<or> f x \<le> f (hd ys) then x else hd ys)"
  by (cases ys) auto

lemma find_least_Cons:
  fixes f :: "'a \<Rightarrow> 'b::linorder"
  shows "List.find (\<lambda>x. \<forall>y\<in>set (a # xs). f x \<le> f y) (a # xs) =
     (if \<forall>y\<in>set xs. f a \<le> f y then Some a
      else List.find (\<lambda>x. \<forall>y\<in>set xs. f x \<le> f y) xs)"
proof (cases "\<forall>y\<in>set xs. f a \<le> f y")
  case True then show ?thesis by simp
next
  case False
  then obtain z where z: "z \<in> set xs" "f z < f a" by (auto simp: not_le)
  have "List.find (\<lambda>x. \<forall>y\<in>set (a # xs). f x \<le> f y) xs
          = List.find (\<lambda>x. \<forall>y\<in>set xs. f x \<le> f y) xs"
  proof (rule find_cong [OF refl])
    fix x assume "x \<in> set xs"
    show "(\<forall>y\<in>set (a # xs). f x \<le> f y) = (\<forall>y\<in>set xs. f x \<le> f y)"
      using z by (auto intro: order_trans less_imp_le)
  qed
  moreover have "\<not> (\<forall>y\<in>set (a # xs). f a \<le> f y)"
    using False by simp
  ultimately have "List.find (\<lambda>x. \<forall>y\<in>set (a # xs). f x \<le> f y) (a # xs)
          = List.find (\<lambda>x. \<forall>y\<in>set xs. f x \<le> f y) xs"
    by (simp only: find.simps if_False)
  with False show ?thesis by (simp only: if_False)
qed

lemma find_least_hd_sort_key:
  fixes f :: "'a \<Rightarrow> 'b::linorder"
  assumes "xs \<noteq> []"
  shows "List.find (\<lambda>x. \<forall>y\<in>set xs. f x \<le> f y) xs = Some (hd (sort_key f xs))"
  using assms
proof (induction xs)
  case Nil then show ?case by simp
next
  case (Cons a xs)
  show ?case
  proof (cases "xs = []")
    case True then show ?thesis by simp
  next
    case False
    with Cons.IH have ih: "List.find (\<lambda>x. \<forall>y\<in>set xs. f x \<le> f y) xs = Some (hd (sort_key f xs))"
      by simp
    from False have ne: "sort_key f xs \<noteq> []" by (metis length_0_conv length_sort)
    from hd_sort_key_least [OF False, of f]
    have mem: "hd (sort_key f xs) \<in> set xs" and least: "\<forall>x\<in>set xs. f (hd (sort_key f xs)) \<le> f x"
      by simp_all
    have "(\<forall>y\<in>set xs. f a \<le> f y) \<longleftrightarrow> f a \<le> f (hd (sort_key f xs))"
      using mem least by (auto intro: order_trans)
    then show ?thesis
      using ih ne by (simp only: find_least_Cons sort_key_simps hd_insort_key) simp
  qed
qed

lemma endswith_iff: "endswith s c \<longleftrightarrow> (\<exists>pre. s = pre @ c)"
proof
  assume "endswith s c"
  then have "s = take (length s - length c) s @ c"
    by (metis append_take_drop_id endswith_def)
  then show "\<exists>pre. s = pre @ c" ..
next
  assume "\<exists>pre. s = pre @ c"
  then show "endswith s c" by (auto simp: endswith_def)
qed

lemma no_group_child_child:
  assumes "no_group_child node" and "(c, n) \<in> set (children node)"
  shows "c \<notin> set (map fst (groups node)) \<and> no_group_child n"
  using assms by (cases node) auto

lemma find_key_map_of:
  "List.find (\<lambda>(c, n). Q c) ms = Some (c, n) \<Longrightarrow>
   List.find Q (map fst ms) = Some c \<and> map_of ms c = Some n \<and> (c, n) \<in> set ms"
proof (induction ms)
  case Nil then show ?case by simp
next
  case (Cons p ms)
  obtain c0 n0 where p: "p = (c0, n0)" by (cases p)
  show ?case
  proof (cases "Q c0")
    case True with Cons.prems p show ?thesis by simp
  next
    case False
    with Cons.prems p have f: "List.find (\<lambda>(c, n). Q c) ms = Some (c, n)" by simp
    from Cons.IH [OF f] have ih: "List.find Q (map fst ms) = Some c" "map_of ms c = Some n"
      "(c, n) \<in> set ms" by simp_all
    from f have "Q c" by (auto simp: find_Some_iff)
    with False have "c \<noteq> c0" by auto
    with ih False p show ?thesis by simp
  qed
qed

lemma find_key_None:
  "List.find (\<lambda>(c, n). Q c) ms = None \<longleftrightarrow> List.find Q (map fst ms) = None"
  by (induction ms) auto

lemma map_of_filter_key:
  "P c \<Longrightarrow> map_of (filter (\<lambda>(c, n). P c) xs) c = map_of xs c"
  by (induction xs) auto

lemma map_fst_filter_key:
  "map fst (filter (\<lambda>(c, n). P c) xs) = filter P (map fst xs)"
  by (induction xs) auto

lemma longest_suffix_child_alt:
  "longest_suffix_child sanitize node seg =
     List.find (\<lambda>(c, n). \<forall>c'\<in>set (filter (\<lambda>c. endswith seg c \<or> endswith (sanitize seg) c)
                                     (map fst (children node))).
                  - int (length c) \<le> - int (length c'))
       (filter (\<lambda>(c, n). endswith seg c \<or> endswith (sanitize seg) c) (children node))"
proof -
  let ?P = "\<lambda>c. endswith seg c \<or> endswith (sanitize seg) c"
  let ?ms = "filter (\<lambda>(c, n). ?P c) (children node)"
  have "(\<lambda>(c, n). \<forall>(c', n')\<in>set ?ms. length c' \<le> length c)
          = (\<lambda>(c::string, n::OptionTree). \<forall>c'\<in>set (filter ?P (map fst (children node))).
                  - int (length c) \<le> - int (length c'))"
    unfolding map_fst_filter_key [symmetric] by (auto simp: fun_eq_iff)
  then show ?thesis by (simp add: longest_suffix_child_def Let_def)
qed

lemma find_step_None:
  assumes "longest_suffix_child sanitize node seg = None"
  shows "sort_key (\<lambda>x. - int (length x))
           (filter (\<lambda>c. endswith seg c \<or> endswith (sanitize seg) c) (map fst (children node))) = []"
proof -
  let ?P = "\<lambda>c. endswith seg c \<or> endswith (sanitize seg) c"
  let ?xs = "filter ?P (map fst (children node))"
  let ?f = "\<lambda>x::string. - int (length x)"
  have "?xs = []"
  proof (rule ccontr)
    assume ne: "?xs \<noteq> []"
    from find_least_hd_sort_key [OF ne, of ?f]
    have "List.find (\<lambda>x. \<forall>y\<in>set ?xs. ?f x \<le> ?f y) ?xs \<noteq> None" by simp
    with assms show False
      unfolding longest_suffix_child_alt find_key_None map_fst_filter_key by simp
  qed
  then show ?thesis by simp
qed

lemma find_step_Some:
  assumes "longest_suffix_child sanitize node seg = Some (c, n)"
  shows "sort_key (\<lambda>x. - int (length x))
           (filter (\<lambda>c. endswith seg c \<or> endswith (sanitize seg) c) (map fst (children node))) \<noteq> []
       \<and> hd (sort_key (\<lambda>x. - int (length x))
           (filter (\<lambda>c. endswith seg c \<or> endswith (sanitize seg) c) (map fst (children node)))) = c
       \<and> map_of (children node) c = Some n \<and> (c, n) \<in> set (children node)
       \<and> (endswith seg c \<or> endswith (sanitize seg) c)"
proof -
  let ?P = "\<lambda>c. endswith seg c \<or> endswith (sanitize seg) c"
  let ?xs = "filter ?P (map fst (children node))"
  let ?ms = "filter (\<lambda>(c, n). ?P c) (children node)"
  let ?f = "\<lambda>x::string. - int (length x)"
  from assms have f: "List.find (\<lambda>(c, n). \<forall>c'\<in>set ?xs. ?f c \<le> ?f c') ?ms = Some (c, n)"
    unfolding longest_suffix_child_alt .
  from find_key_map_of [OF f] have
    k: "List.find (\<lambda>c. \<forall>c'\<in>set ?xs. ?f c \<le> ?f c') ?xs = Some c"
    and m: "map_of ?ms c = Some n" and mem: "(c, n) \<in> set ?ms"
    unfolding map_fst_filter_key by simp_all
  from mem have P: "?P c" and mem': "(c, n) \<in> set (children node)" by auto
  from k have ne: "?xs \<noteq> []" by auto
  from find_least_hd_sort_key [OF ne, of ?f] k have "hd (sort_key ?f ?xs) = c" by simp
  moreover from ne have "sort_key ?f ?xs \<noteq> []" by (metis length_0_conv length_sort)
  moreover from m P have "map_of (children node) c = Some n"
    by (simp add: map_of_filter_key [of ?P])
  ultimately show ?thesis using P mem' by blast
qed

lemma find_loop_spec:
  "no_group_child node \<Longrightarrow>
   find_loop sanitize (p, NodeItem node) segs =
     Inr (fst (spec_find sanitize (p, node) segs), NodeItem (snd (spec_find sanitize (p, node) segs)))
   \<and> no_group_child (snd (spec_find sanitize (p, node) segs))"
proof (induction segs arbitrary: p node)
  case Nil then show ?case by simp
next
  case (Cons seg segs)
  show ?case
  proof (cases "longest_suffix_child sanitize node seg")
    case None
    from find_step_None [OF None] Cons.IH [OF Cons.prems, of p] None
    show ?thesis by (simp add: Let_def)
  next
    case (Some cn)
    obtain c n where cn: "cn = (c, n)" by (cases cn)
    from find_step_Some [OF Some [unfolded cn]] have
      ne: "sort_key (\<lambda>x. - int (length x))
           (filter (\<lambda>c. endswith seg c \<or> endswith (sanitize seg) c) (map fst (children node))) \<noteq> []"
      and h: "hd (sort_key (\<lambda>x. - int (length x))
           (filter (\<lambda>c. endswith seg c \<or> endswith (sanitize seg) c) (map fst (children node)))) = c"
      and m: "map_of (children node) c = Some n" and mem: "(c, n) \<in> set (children node)"
      by simp_all
    from no_group_child_child [OF Cons.prems mem] have
      ng: "c \<notin> set (map fst (groups node))" and nn: "no_group_child n" by simp_all
    from ng have "map_of (groups node) c = None" by (simp add: map_of_eq_None_iff)
    with m have g: "OptionTree_getitem node c = Inr (NodeItem n)"
      by (simp add: OptionTree_getitem_def AttrTree_getitem_def)
    from Cons.IH [OF nn, of "p @ [c]"] ne h g Some cn
    show ?thesis by (simp add: Let_def)
  qed
qed

lemma longest_suffix_child_None_iff:
  "longest_suffix_child sanitize node seg = None \<longleftrightarrow>
     (\<forall>(c, n)\<in>set (children node). \<not> (\<exists>pre. seg = pre @ c) \<and> \<not> (\<exists>pre. sanitize seg = pre @ c))"
proof
  assume "longest_suffix_child sanitize node seg = None"
  from find_step_None [OF this]
  have "filter (\<lambda>c. endswith seg c \<or> endswith (sanitize seg) c) (map fst (children node)) = []"
    by (metis length_0_conv length_sort)
  then show "\<forall>(c, n)\<in>set (children node). \<not> (\<exists>pre. seg = pre @ c) \<and> \<not> (\<exists>pre. sanitize seg = pre @ c)"
    unfolding endswith_iff [symmetric] by (force simp: filter_empty_conv)
next
  assume a: "\<forall>(c, n)\<in>set (children node). \<not> (\<exists>pre. seg = pre @ c) \<and> \<not> (\<exists>pre. sanitize seg = pre @ c)"
  show "longest_suffix_child sanitize node seg = None"
  proof (cases "longest_suffix_child sanitize node seg")
    case None then show ?thesis .
  next
    case (Some cn)
    obtain c n where cn: "cn = (c, n)" by (cases cn)
    from find_step_Some [OF Some [unfolded cn]] a show ?thesis
      unfolding endswith_iff by blast
  qed
qed

lemma longest_suffix_child_Some:
  assumes "longest_suffix_child sanitize node seg = Some (c, n)"
  shows "(c, n) \<in> set (children node)
       \<and> ((\<exists>pre. seg = pre @ c) \<or> (\<exists>pre. sanitize seg = pre @ c))
       \<and> (\<forall>(c', n')\<in>set (children node).
             (\<exists>pre. seg = pre @ c') \<or> (\<exists>pre. sanitize seg = pre @ c') \<longrightarrow> length c' \<le> length c)"
proof -
  let ?ms = "filter (\<lambda>(c, n). endswith seg c \<or> endswith (sanitize seg) c) (children node)"
  from assms have "List.find (\<lambda>(c, n). \<forall>(c', n')\<in>set ?ms. length c' \<le> length c) ?ms = Some (c, n)"
    by (simp add: longest_suffix_child_def Let_def)
  then have "\<forall>(c', n')\<in>set ?ms. length c' \<le> length c"
    by (auto simp: find_Some_iff)
  then have "\<forall>(c', n')\<in>set (children node).
             (\<exists>pre. seg = pre @ c') \<or> (\<exists>pre. sanitize seg = pre @ c') \<longrightarrow> length c' \<le> length c"
    unfolding endswith_iff [symmetric] by auto
  with find_step_Some [OF assms] show ?thesis
    unfolding endswith_iff by blast
qed

text \<open>
  C6, as amended. In a tree in which no child of a node is named like a group of the
  node, \<^verbatim>\<open>find\<close> raises no error and returns the node (or, for another mode, the path)
  that the greedy walk reaches: at each segment it descends into the existing child
  whose identifier is the longest suffix of the segment or of the sanitized segment,
  and stays at the current node when no identifier is such a suffix. Finding
  \<^verbatim>\<open>['Image','Sub']\<close> when only the child \<^verbatim>\<open>Image\<close> exists returns the node \<^verbatim>\<open>Image\<close>.
\<close>

theorem find_longest_suffix_walk:
  assumes "no_group_child root"
  shows "OptionTree_find sanitize p root segs ''node''
           = Inr (FoundItem (NodeItem (snd (spec_find sanitize (p, root) segs))))
   \<and> (md \<noteq> ''node'' \<longrightarrow>
        OptionTree_find sanitize p root segs md
           = Inr (FoundPath (fst (spec_find sanitize (p, root) segs))))
   \<and> (longest_suffix_child sanitize node seg = None \<longleftrightarrow>
        (\<forall>(c, n)\<in>set (children node).
            \<not> (\<exists>pre. seg = pre @ c) \<and> \<not> (\<exists>pre. sanitize seg = pre @ c)))
   \<and> (\<forall>c n. longest_suffix_child sanitize node seg = Some (c, n) \<longrightarrow>
          (c, n) \<in> set (children node)
        \<and> ((\<exists>pre. seg = pre @ c) \<or> (\<exists>pre. sanitize seg = pre @ c))
        \<and> (\<forall>(c', n')\<in>set (children node).
              (\<exists>pre. seg = pre @ c') \<or> (\<exists>pre. sanitize seg = pre @ c') \<longrightarrow>
              length c' \<le> length c))"
proof (intro conjI impI allI)
  from find_loop_spec [OF assms, of sanitize p segs]
  have l: "find_loop sanitize (p, NodeItem root) segs =
     Inr (fst (spec_find sanitize (p, root) segs), NodeItem (snd (spec_find sanitize (p, root) segs)))"
    by simp
  show "OptionTree_find sanitize p root segs ''node''
           = Inr (FoundItem (NodeItem (snd (spec_find sanitize (p, root) segs))))"
    by (simp add: OptionTree_find_def l)
  show "OptionTree_find sanitize p root segs md
           = Inr (FoundPath (fst (spec_find sanitize (p, root) segs)))" if "md \<noteq> ''node''"
    using that by (simp add: OptionTree_find_def l)
next
  show "longest_suffix_child sanitize node seg = None \<longleftrightarrow>
        (\<forall>(c, n)\<in>set (children node).
            \<not> (\<exists>pre. seg = pre @ c) \<and> \<not> (\<exists>pre. sanitize seg = pre @ c))"
    by (rule longest_suffix_child_None_iff)
next
  fix c n assume "longest_suffix_child sanitize node seg = Some (c, n)"
  from longest_suffix_child_Some [OF this]
  show "(c, n) \<in> set (children node)"
    and "(\<exists>pre. seg = pre @ c) \<or> (\<exists>pre. sanitize seg = pre @ c)"
    and "\<forall>(c', n')\<in>set (children node).
              (\<exists>pre. seg = pre @ c') \<or> (\<exists>pre. sanitize seg = pre @ c') \<longrightarrow>
              length c' \<le> length c"
    by simp_all
qed

theorem find_longest_suffix_walk_witness:
  "no_group_child ex_image_tree
   \<and> OptionTree_find id [] ex_image_tree [''Image'', ''Sub''] ''node''
       = Inr (FoundItem (NodeItem ex_image_node))
   \<and> OptionTree_find id [] ex_image_tree [''Image'', ''Sub''] ''path''
       = Inr (FoundPath [''Image''])
   \<and> longest_suffix_child id ex_image_tree ''Sub'' = None
   \<and> longest_suffix_child id ex_image_tree ''RedImage'' = Some (''Image'', ex_image_node)"
proof -
  have w: "no_group_child ex_image_tree"
    by (simp add: ex_image_tree_def ex_image_node_def)
  have s: "spec_find id ([], ex_image_tree) [''Image'', ''Sub''] = ([''Image''], ex_image_node)"
    by code_simp
  have n: "''path'' \<noteq> ''node''" by simp
  have l1: "longest_suffix_child id ex_image_tree ''Sub'' = None" by code_simp
  have l2: "longest_suffix_child id ex_image_tree ''RedImage'' = Some (''Image'', ex_image_node)"
    by code_simp
  from find_longest_suffix_walk [OF w, of id "[]" "[''Image'', ''Sub'']" "''path''"] s n
  have "OptionTree_find id [] ex_image_tree [''Image'', ''Sub''] ''node''
       = Inr (FoundItem (NodeItem ex_image_node))"
    and "OptionTree_find id [] ex_image_tree [''Image'', ''Sub''] ''path''
       = Inr (FoundPath [''Image''])"
    by simp_all
  with w l1 l2 show ?thesis by simp
qed

text \<open>
  C6 as stated fails for a tree with a child that is named like a group: indexing the
  node with that name gives the Options object of the group, not the child, and the
  attribute \<^verbatim>\<open>children\<close> that the next segment reads is missing from it. The tree is the
  result of \<^verbatim>\<open>root.A = {'A': Options(x=1)}\<close> on a root with the one group \<^verbatim>\<open>A\<close>.
\<close>

theorem find_group_named_child_counterexample:
  "setattr_at id (OptionTree_init None [(''A'', ex_options [])]) [] ''A''
      (DictVal [(''A'', ex_options [(''x'', IntV 1)])])
     = Inr ex_group_child_tree
   \<and> OptionTree_find id [] ex_group_child_tree [''A'', ''B''] ''node'' = Inl AttributeError"
  by code_simp

end
